theory Spec2Isabelle
  imports Main
begin

section \<open>Strings and numbers of the host language\<close>

text \<open>
  A string of the program is a sequence of UTF-16 code units; a code unit is held as the
  natural number it denotes. \<open>js\<close> turns an ASCII literal into such a string.
\<close>

type_synonym jschar = nat
type_synonym jsstring = "jschar list"

definition js :: "string \<Rightarrow> jsstring" where
  "js = map of_char"

text \<open>Inclusive ranges of code units: the character classes of the regular expressions.\<close>

type_synonym ranges = "(nat \<times> nat) list"

fun inRanges :: "ranges \<Rightarrow> jschar \<Rightarrow> bool" where
  "inRanges [] c = False"
| "inRanges ((lo, hi) # rs) c = ((lo \<le> c \<and> c \<le> hi) \<or> inRanges rs c)"

definition digit :: ranges where
  "digit = [(48, 57)]"

definition alpha :: ranges where
  "alpha = [(65, 90), (97, 122)]"

text \<open>\<open>\w\<close>: letters, digits and the underscore.\<close>

definition wordChar :: ranges where
  "wordChar = [(65, 90), (97, 122), (48, 57), (95, 95)]"

text \<open>
  White space and line terminators, as \<open>String.prototype.trim\<close> and \<open>\s\<close> take them:
  U+0009 to U+000D, U+0020, U+00A0, U+1680, U+2000 to U+200A, U+2028, U+2029, U+202F,
  U+205F, U+3000 and U+FEFF.
\<close>

definition space :: ranges where
  "space = [(9, 13), (32, 32), (160, 160), (5760, 5760), (8192, 8202), (8232, 8233),
            (8239, 8239), (8287, 8287), (12288, 12288), (65279, 65279)]"

definition trim :: "jsstring \<Rightarrow> jsstring" where
  "trim s = rev (dropWhile (inRanges space) (rev (dropWhile (inRanges space) s)))"

text \<open>
  Case mapping on the ASCII letters. The program compares the mapped strings only with
  ASCII words (month names, AM, PM), and no code unit outside ASCII maps to an ASCII
  letter of those words, so the comparisons agree with the host's full case mapping.
\<close>

definition lowerChar :: "jschar \<Rightarrow> jschar" where
  "lowerChar c = (if 65 \<le> c \<and> c \<le> 90 then c + 32 else c)"

definition upperChar :: "jschar \<Rightarrow> jschar" where
  "upperChar c = (if 97 \<le> c \<and> c \<le> 122 then c - 32 else c)"

definition toLowerCase :: "jsstring \<Rightarrow> jsstring" where
  "toLowerCase = map lowerChar"

definition toUpperCase :: "jsstring \<Rightarrow> jsstring" where
  "toUpperCase = map upperChar"

text \<open>\<open>Number(s)\<close> on a string of decimal digits of at most 15 digits (exact).\<close>

definition digitsToInt :: "jsstring \<Rightarrow> int" where
  "digitsToInt s = foldl (\<lambda>a c. 10 * a + (int c - 48)) 0 s"

text \<open>\<open>BigInt(s)\<close> on a string of decimal digits: the unbounded integer.\<close>

definition bigIntOfDigits :: "jsstring \<Rightarrow> int" where
  "bigIntOfDigits s = foldl (\<lambda>a c. 10 * a + (int c - 48)) 0 s"

text \<open>Decimal digits of a natural number, and \<open>toString\<close> of an integer.\<close>

fun natDigits :: "nat \<Rightarrow> jsstring" where
  "natDigits n = (if n < 10 then [48 + n] else natDigits (n div 10) @ [48 + n mod 10])"

declare natDigits.simps [simp del]

definition intToString :: "int \<Rightarrow> jsstring" where
  "intToString i = (if i < 0 then 45 # natDigits (nat (- i)) else natDigits (nat i))"

text \<open>
  A number of the host (an IEEE double) where it can leave the integers: a finite
  integer value, an infinity, or NaN. Integers below \<open>2 ^ 53\<close> in magnitude are exact.
\<close>

datatype jsnum = Num int | PosInf | NegInf | NaN

fun bitlen :: "int \<Rightarrow> nat" where
  "bitlen n = (if n \<le> 0 then 0 else Suc (bitlen (n div 2)))"

declare bitlen.simps [simp del]

text \<open>
  Rounding of a non-negative integer to the nearest double, ties to even: 53 significant
  bits are kept; \<open>None\<close> is the overflow to infinity (from \<open>2 ^ 1024\<close>).
\<close>

definition roundNat :: "int \<Rightarrow> int option" where
  "roundNat n =
     (if n < 2 ^ 53 then Some n
      else let e = bitlen n - 53;
               q = n div 2 ^ e;
               r = n mod 2 ^ e;
               h = 2 ^ (e - 1);
               q' = (if r > h \<or> (r = h \<and> odd q) then q + 1 else q);
               v = q' * 2 ^ e
           in if v \<ge> 2 ^ 1024 then None else Some v)"

definition toDouble :: "int \<Rightarrow> jsnum" where
  "toDouble i =
     (if i \<ge> 0 then (case roundNat i of None \<Rightarrow> PosInf | Some v \<Rightarrow> Num v)
      else (case roundNat (- i) of None \<Rightarrow> NegInf | Some v \<Rightarrow> Num (- v)))"

text \<open>
  Arithmetic on such numbers: the exact result, rounded. Multiplication is by a positive
  integer constant.
\<close>

fun mulConst :: "jsnum \<Rightarrow> int \<Rightarrow> jsnum" where
  "mulConst (Num a) k = toDouble (a * k)"
| "mulConst PosInf k = PosInf"
| "mulConst NegInf k = NegInf"
| "mulConst NaN k = NaN"

fun numNeg :: "jsnum \<Rightarrow> jsnum" where
  "numNeg (Num a) = Num (- a)"
| "numNeg PosInf = NegInf"
| "numNeg NegInf = PosInf"
| "numNeg NaN = NaN"

fun numAdd :: "jsnum \<Rightarrow> jsnum \<Rightarrow> jsnum" where
  "numAdd (Num a) (Num b) = toDouble (a + b)"
| "numAdd NaN y = NaN"
| "numAdd x NaN = NaN"
| "numAdd PosInf NegInf = NaN"
| "numAdd NegInf PosInf = NaN"
| "numAdd PosInf y = PosInf"
| "numAdd NegInf y = NegInf"
| "numAdd x PosInf = PosInf"
| "numAdd x NegInf = NegInf"

definition numSub :: "jsnum \<Rightarrow> jsnum \<Rightarrow> jsnum" where
  "numSub x y = numAdd x (numNeg y)"

text \<open>\<open>x !== y\<close> on numbers: NaN differs from everything, itself included.\<close>

definition numNeq :: "jsnum \<Rightarrow> jsnum \<Rightarrow> bool" where
  "numNeq x y = (x = NaN \<or> y = NaN \<or> x \<noteq> y)"

text \<open>
  \<open>Math.trunc(x / k)\<close> for a positive integer constant \<open>k\<close>. The quotient of the host is
  a rounded double; its integer part is the exact one below \<open>2 ^ 38 * k\<close> in magnitude,
  which covers every time value and every offset between two time values of real zones.
\<close>

definition truncDiv :: "int \<Rightarrow> int \<Rightarrow> int" where
  "truncDiv a k = (if a \<ge> 0 then a div k else - ((- a) div k))"

definition numTruncDiv :: "jsnum \<Rightarrow> int \<Rightarrow> jsnum" where
  "numTruncDiv x k = (case x of Num a \<Rightarrow> Num (truncDiv a k) | y \<Rightarrow> y)"

fun isFinite :: "jsnum \<Rightarrow> bool" where
  "isFinite (Num a) = True"
| "isFinite x = False"

section \<open>Regular expressions\<close>

text \<open>
  The patterns of the program, as a datatype, and a backtracking matcher that returns
  the matches in the order the host's matcher tries them: a greedy quantifier tries the
  longer repetition first, an alternative its left branch first. A state of the matcher
  is the captures so far, the code unit before the position, and the rest of the input.
\<close>

datatype regex =
    Cls ranges
  | Cat regex regex
  | Alt regex regex
  | Opt regex
  | Rep ranges nat "nat option"
  | Grp nat regex
  | Eps
  | Eos
  | Wb
  | NotAhead ranges

type_synonym captures = "nat \<rightharpoonup> jsstring"
type_synonym mstate = "captures \<times> jschar option \<times> jsstring"

fun rep :: "ranges \<Rightarrow> nat \<Rightarrow> nat option \<Rightarrow> jschar option \<Rightarrow> jsstring \<Rightarrow> (jschar option \<times> jsstring) list" where
  "rep rs m n p [] = (if m = 0 then [(p, [])] else [])"
| "rep rs m n p (c # t) =
     (if n \<noteq> Some 0 \<and> inRanges rs c then rep rs (m - 1) (map_option (\<lambda>k. k - 1) n) (Some c) t else [])
     @ (if m = 0 then [(p, c # t)] else [])"

definition isWordAt :: "jschar option \<Rightarrow> bool" where
  "isWordAt p = (case p of None \<Rightarrow> False | Some c \<Rightarrow> inRanges wordChar c)"

fun rmatch :: "regex \<Rightarrow> mstate \<Rightarrow> mstate list" where
  "rmatch (Cls rs) (cp, p, s) =
     (case s of [] \<Rightarrow> [] | c # t \<Rightarrow> if inRanges rs c then [(cp, Some c, t)] else [])"
| "rmatch (Cat a b) st = concat (map (rmatch b) (rmatch a st))"
| "rmatch (Alt a b) st = rmatch a st @ rmatch b st"
| "rmatch (Opt a) st = rmatch a st @ [st]"
| "rmatch (Rep rs m n) (cp, p, s) = map (\<lambda>(p', t). (cp, p', t)) (rep rs m n p s)"
| "rmatch (Grp i a) (cp, p, s) =
     map (\<lambda>(cp', p', t). (cp'(i \<mapsto> take (length s - length t) s), p', t)) (rmatch a (cp, p, s))"
| "rmatch Eps st = [st]"
| "rmatch Eos (cp, p, s) = (if s = [] then [(cp, p, s)] else [])"
| "rmatch Wb (cp, p, s) =
     (if isWordAt p \<noteq> isWordAt (case s of [] \<Rightarrow> None | c # t \<Rightarrow> Some c) then [(cp, p, s)] else [])"
| "rmatch (NotAhead rs) (cp, p, s) =
     (case s of [] \<Rightarrow> [(cp, p, s)] | c # t \<Rightarrow> if inRanges rs c then [] else [(cp, p, s)])"

text \<open>\<open>s.match(r)\<close> for a pattern that starts with \<open>^\<close>: the captures of the first match.\<close>

definition rxMatch :: "regex \<Rightarrow> jsstring \<Rightarrow> captures option" where
  "rxMatch r s = (case rmatch r (Map.empty, None, s) of [] \<Rightarrow> None | (cp, p, t) # _ \<Rightarrow> Some cp)"

definition rxTest :: "regex \<Rightarrow> jsstring \<Rightarrow> bool" where
  "rxTest r s = (rxMatch r s \<noteq> None)"

text \<open>\<open>r.test(s)\<close> for a pattern without \<open>^\<close>: a match from some position.\<close>

fun rxSearchFrom :: "regex \<Rightarrow> jschar option \<Rightarrow> jsstring \<Rightarrow> bool" where
  "rxSearchFrom r p [] = (rmatch r (Map.empty, p, []) \<noteq> [])"
| "rxSearchFrom r p (c # s) = (rmatch r (Map.empty, p, c # s) \<noteq> [] \<or> rxSearchFrom r (Some c) s)"

definition rxSearch :: "regex \<Rightarrow> jsstring \<Rightarrow> bool" where
  "rxSearch r s = rxSearchFrom r None s"

text \<open>
  \<open>s.replace(r, f)\<close> under the \<open>g\<close> flag, for a pattern that matches no empty string:
  left to right, each match is replaced and the scan goes on behind it.
\<close>

function rxReplace :: "regex \<Rightarrow> (captures \<Rightarrow> jsstring) \<Rightarrow> jschar option \<Rightarrow> jsstring \<Rightarrow> jsstring" where
  "rxReplace r f p [] = []"
| "rxReplace r f p (c # s) =
     (case rmatch r (Map.empty, p, c # s) of
        [] \<Rightarrow> c # rxReplace r f (Some c) s
      | (cp, p', t) # _ \<Rightarrow>
          if length t \<le> length s then f cp @ rxReplace r f p' t
          else c # rxReplace r f (Some c) s)"
  by pat_completeness auto
termination
  by (relation "measure (\<lambda>(r, f, p, s). length s)") auto

text \<open>Pattern builders: a sequence, a literal, a literal under the \<open>i\<close> flag.\<close>

definition seq :: "regex list \<Rightarrow> regex" where
  "seq rs = foldr Cat rs Eps"

definition ch :: "jschar \<Rightarrow> regex" where
  "ch c = Cls [(c, c)]"

definition chI :: "jschar \<Rightarrow> regex" where
  "chI c = Cls [(lowerChar c, lowerChar c), (upperChar c, upperChar c)]"

definition lit :: "string \<Rightarrow> regex" where
  "lit s = seq (map ch (js s))"

definition litI :: "string \<Rightarrow> regex" where
  "litI s = seq (map chI (js s))"

text \<open>A capture that took part in the match, or the default \<open>x ?? d\<close>.\<close>

definition grp :: "captures \<Rightarrow> nat \<Rightarrow> jsstring" where
  "grp cp i = (case cp i of None \<Rightarrow> [] | Some s \<Rightarrow> s)"

section \<open>Dates of the host\<close>

text \<open>
  The time value of a \<open>Date\<close> is a number: an integer of milliseconds since the epoch
  within \<open>\<plusminus>8.64e15\<close>, or NaN for an invalid date. The day and year arithmetic is
  that of the language standard (proleptic Gregorian calendar).
\<close>

type_synonym Date = jsnum

definition msPerDay :: int where
  "msPerDay = 86400000"

definition timeClip :: "jsnum \<Rightarrow> jsnum" where
  "timeClip x = (case x of Num t \<Rightarrow> if \<bar>t\<bar> > 8640000000000000 then NaN else Num t | _ \<Rightarrow> NaN)"

definition newDate :: "jsnum \<Rightarrow> Date" where
  "newDate x = timeClip x"

definition getTime :: "Date \<Rightarrow> jsnum" where
  "getTime d = d"

definition daysInYear :: "int \<Rightarrow> int" where
  "daysInYear y =
     (if y mod 4 \<noteq> 0 then 365 else if y mod 100 \<noteq> 0 then 366
      else if y mod 400 \<noteq> 0 then 365 else 366)"

definition inLeapYear :: "int \<Rightarrow> int" where
  "inLeapYear y = (if daysInYear y = 366 then 1 else 0)"

definition dayFromYear :: "int \<Rightarrow> int" where
  "dayFromYear y = 365 * (y - 1970) + (y - 1969) div 4 - (y - 1901) div 100 + (y - 1601) div 400"

text \<open>
  The year that holds a day number, and the day within that year: the day count from
  1 January of year 1 is split into cycles of 400, 100, 4 and 1 years.
\<close>

definition yearAndDay :: "int \<Rightarrow> int \<times> int" where
  "yearAndDay d =
     (let n = d + 719162;
          n400 = n div 146097; r = n mod 146097;
          n100 = min 3 (r div 36524); r2 = r - 36524 * n100;
          n4 = r2 div 1461; r3 = r2 mod 1461;
          n1 = min 3 (r3 div 365); r4 = r3 - 365 * n1
      in (400 * n400 + 100 * n100 + 4 * n4 + n1 + 1, r4))"

definition yearFromDay :: "int \<Rightarrow> int" where
  "yearFromDay d = fst (yearAndDay d)"

definition dayWithinYear :: "int \<Rightarrow> int" where
  "dayWithinYear d = snd (yearAndDay d)"

definition monthFromDay :: "int \<Rightarrow> int" where
  "monthFromDay d =
     (let w = dayWithinYear d; l = inLeapYear (yearFromDay d) in
      if w < 31 then 0 else if w < 59 + l then 1 else if w < 90 + l then 2
      else if w < 120 + l then 3 else if w < 151 + l then 4 else if w < 181 + l then 5
      else if w < 212 + l then 6 else if w < 243 + l then 7 else if w < 273 + l then 8
      else if w < 304 + l then 9 else if w < 334 + l then 10 else 11)"

definition dateFromDay :: "int \<Rightarrow> int" where
  "dateFromDay d =
     (let w = dayWithinYear d; l = inLeapYear (yearFromDay d); m = monthFromDay d in
      if m = 0 then w + 1 else if m = 1 then w - 30 else if m = 2 then w - 58 - l
      else if m = 3 then w - 89 - l else if m = 4 then w - 119 - l
      else if m = 5 then w - 150 - l else if m = 6 then w - 180 - l
      else if m = 7 then w - 211 - l else if m = 8 then w - 242 - l
      else if m = 9 then w - 272 - l else if m = 10 then w - 303 - l else w - 333 - l)"

text \<open>Days before the first of month \<open>mn\<close> (0..11) in a year with leap flag \<open>l\<close>.\<close>

definition monthStart :: "int \<Rightarrow> int \<Rightarrow> int" where
  "monthStart mn l =
     (if mn = 0 then 0 else if mn = 1 then 31 else if mn = 2 then 59 + l
      else if mn = 3 then 90 + l else if mn = 4 then 120 + l else if mn = 5 then 151 + l
      else if mn = 6 then 181 + l else if mn = 7 then 212 + l else if mn = 8 then 243 + l
      else if mn = 9 then 273 + l else if mn = 10 then 304 + l else 334 + l)"

definition makeDay :: "int \<Rightarrow> int \<Rightarrow> int \<Rightarrow> int" where
  "makeDay year month date =
     (let ym = year + month div 12; mn = month mod 12
      in dayFromYear ym + monthStart mn (inLeapYear ym) + date - 1)"

definition makeTime :: "int \<Rightarrow> int \<Rightarrow> int \<Rightarrow> int \<Rightarrow> int" where
  "makeTime h m s ms = h * 3600000 + m * 60000 + s * 1000 + ms"

text \<open>
  \<open>Date.UTC\<close> on integer arguments. A year from 0 to 99 stands for 1900 + year. The
  program passes years up to 9999 and fields below 1000, where every intermediate value
  is an exact integer.
\<close>

definition dateUTC :: "int \<Rightarrow> int \<Rightarrow> int \<Rightarrow> int \<Rightarrow> int \<Rightarrow> int \<Rightarrow> int \<Rightarrow> jsnum" where
  "dateUTC year month date h m s ms =
     (let yr = (if 0 \<le> year \<and> year \<le> 99 then 1900 + year else year)
      in timeClip (Num (makeDay yr month date * msPerDay + makeTime h m s ms)))"

text \<open>The UTC getters; on an invalid date they return NaN.\<close>

definition getUTCFullYear :: "Date \<Rightarrow> jsnum" where
  "getUTCFullYear d = (case d of Num t \<Rightarrow> Num (yearFromDay (t div msPerDay)) | _ \<Rightarrow> NaN)"

definition getUTCMonth :: "Date \<Rightarrow> jsnum" where
  "getUTCMonth d = (case d of Num t \<Rightarrow> Num (monthFromDay (t div msPerDay)) | _ \<Rightarrow> NaN)"

definition getUTCDate :: "Date \<Rightarrow> jsnum" where
  "getUTCDate d = (case d of Num t \<Rightarrow> Num (dateFromDay (t div msPerDay)) | _ \<Rightarrow> NaN)"

definition getUTCHours :: "Date \<Rightarrow> jsnum" where
  "getUTCHours d = (case d of Num t \<Rightarrow> Num ((t div 3600000) mod 24) | _ \<Rightarrow> NaN)"

definition getUTCMinutes :: "Date \<Rightarrow> jsnum" where
  "getUTCMinutes d = (case d of Num t \<Rightarrow> Num ((t div 60000) mod 60) | _ \<Rightarrow> NaN)"

definition getUTCSeconds :: "Date \<Rightarrow> jsnum" where
  "getUTCSeconds d = (case d of Num t \<Rightarrow> Num ((t div 1000) mod 60) | _ \<Rightarrow> NaN)"

text \<open>\<open>x + k\<close> for a number and an exact integer constant.\<close>

definition plusInt :: "jsnum \<Rightarrow> int \<Rightarrow> jsnum" where
  "plusInt x k = (case x of Num a \<Rightarrow> Num (a + k) | y \<Rightarrow> y)"

text \<open>\<open>toString\<close> of a number that is an integer, an infinity or NaN.\<close>

definition numToString :: "jsnum \<Rightarrow> jsstring" where
  "numToString x =
     (case x of Num i \<Rightarrow> intToString i | NaN \<Rightarrow> js ''NaN''
      | PosInf \<Rightarrow> js ''Infinity'' | NegInf \<Rightarrow> js ''-Infinity'')"

section \<open>Time zones (timezone.ts)\<close>

text \<open>
  What the program takes from the host's internationalisation library and clock, as
  parameters: the resolved local zone name; whether a zone name is accepted by the
  date formatter (it throws a RangeError otherwise); for a zone name and a time value
  the parts of type year, month, day, hour, minute and second that \<open>formatToParts\<close>
  returns, in its order, each with the number its text denotes; the value of the part of
  type \<open>timeZoneName\<close> if there is one; the clock; and \<open>Date.parse\<close>.
\<close>

record env =
  resolvedTimeZone :: jsstring
  validTimeZone :: "jsstring \<Rightarrow> bool"
  dateTimeParts :: "jsstring \<Rightarrow> int \<Rightarrow> (jsstring \<times> int) list"
  timeZoneNamePart :: "jsstring \<Rightarrow> int \<Rightarrow> jsstring option"
  dateNow :: int
  dateParse :: "jsstring \<Rightarrow> jsnum"

datatype exn = RangeError

datatype ZoneSpec =
    Iana jsstring "jsstring option"
  | Fixed int jsstring

record DateComponents =
  cyear :: int
  cmonth :: int
  cday :: int
  chour :: "int option"
  cminute :: "int option"
  csecond :: "int option"
  cmillisecond :: "int option"

record DateParts =
  pyear :: jsnum
  pmonth :: jsnum
  pday :: jsnum
  phour :: jsnum
  pminute :: jsnum
  psecond :: jsnum

definition minutesInHour :: int where
  "minutesInHour = 60"

definition millisecondsInMinute :: int where
  "millisecondsInMinute = 60000"

definition oneOf :: "string \<Rightarrow> regex" where
  "oneOf s = Cls (map (\<lambda>c. (c, c)) (js s))"

definition offsetPattern :: regex where
  "offsetPattern =
     seq [Alt (litI ''UTC'') (litI ''GMT''), Rep space 0 None, Grp 1 (oneOf ''+-''),
          Rep space 0 None, Grp 2 (Rep digit 1 (Some 2)),
          Opt (seq [Opt (ch 58), Grp 3 (Rep digit 2 (Some 2))]), Eos]"

definition bareOffsetPattern :: regex where
  "bareOffsetPattern =
     seq [Grp 1 (oneOf ''+-''), Rep space 0 None, Grp 2 (Rep digit 1 (Some 2)),
          Opt (seq [Opt (ch 58), Grp 3 (Rep digit 2 (Some 2))]), Eos]"

definition etcPattern :: regex where
  "etcPattern = seq [litI ''Etc/GMT'', Grp 1 (oneOf ''+-''), Grp 2 (Rep digit 1 (Some 2)), Eos]"

definition padStart :: "nat \<Rightarrow> jsstring \<Rightarrow> jsstring" where
  "padStart width s = replicate (width - length s) 48 @ s"

definition pad :: "jsnum \<Rightarrow> jsstring" where
  "pad v = padStart 2 (numToString v)"

definition toDateParts :: "env \<Rightarrow> Date \<Rightarrow> jsstring \<Rightarrow> exn + DateParts" where
  "toDateParts e date timeZone =
     (if \<not> validTimeZone e timeZone then Inl RangeError
      else case date of
        Num t \<Rightarrow>
          Inr (foldl (\<lambda>ps (ty, v).
                   if ty = js ''year'' then ps\<lparr>pyear := Num v\<rparr>
                   else if ty = js ''month'' then ps\<lparr>pmonth := Num v\<rparr>
                   else if ty = js ''day'' then ps\<lparr>pday := Num v\<rparr>
                   else if ty = js ''hour'' then ps\<lparr>phour := Num v\<rparr>
                   else if ty = js ''minute'' then ps\<lparr>pminute := Num v\<rparr>
                   else if ty = js ''second'' then ps\<lparr>psecond := Num v\<rparr>
                   else ps)
                 \<lparr>pyear = Num 0, pmonth = Num 0, pday = Num 0, phour = Num 0,
                  pminute = Num 0, psecond = Num 0\<rparr>
                 (dateTimeParts e timeZone t))
      | _ \<Rightarrow> Inl RangeError)"

definition zoneName :: "env \<Rightarrow> Date \<Rightarrow> jsstring \<Rightarrow> exn + jsstring" where
  "zoneName e date timeZone =
     (if \<not> validTimeZone e timeZone then Inl RangeError
      else case date of
        Num t \<Rightarrow> Inr (case timeZoneNamePart e timeZone t of None \<Rightarrow> timeZone | Some v \<Rightarrow> v)
      | _ \<Rightarrow> Inl RangeError)"

text \<open>
  \<open>minutes % 60\<close> and \<open>Math.trunc(minutes / 60)\<close> are taken on the absolute value; on
  NaN every comparison is false and every result is NaN.
\<close>

definition formatOffset :: "jsnum \<Rightarrow> jsstring" where
  "formatOffset minutes =
     (case minutes of
        Num m \<Rightarrow>
          (let sign = (if m \<ge> 0 then js ''+'' else js ''-'');
               absolute = \<bar>m\<bar>;
               hh = absolute div minutesInHour;
               mm = absolute mod minutesInHour
           in sign @ pad (Num hh) @ js '':'' @ pad (Num mm))
      | NaN \<Rightarrow> js ''-'' @ pad NaN @ js '':'' @ pad NaN
      | PosInf \<Rightarrow> js ''+'' @ pad PosInf @ js '':'' @ pad NaN
      | NegInf \<Rightarrow> js ''-'' @ pad PosInf @ js '':'' @ pad NaN)"

definition formatDateString :: "DateParts \<Rightarrow> jsnum \<Rightarrow> jsstring \<Rightarrow> jsstring" where
  "formatDateString parts offsetMinutes zoneToken =
     numToString (pyear parts) @ js ''-'' @ pad (pmonth parts) @ js ''-'' @ pad (pday parts)
     @ js ''T'' @ pad (phour parts) @ js '':'' @ pad (pminute parts) @ js '':''
     @ pad (psecond parts) @ js '' '' @ formatOffset offsetMinutes @ js '' '' @ zoneToken"

definition parseFixedOffset :: "jsstring \<Rightarrow> ZoneSpec option" where
  "parseFixedOffset raw =
     (case rxMatch etcPattern raw of
        Some etc \<Rightarrow>
          (let direction = grp etc 1; hours = digitsToInt (grp etc 2) in
           if hours > 23 then None
           else let offsetMinutes = (if direction = js ''+'' then - 1 else 1) * hours * minutesInHour
                in Some (Fixed offsetMinutes (js ''UTC'' @ formatOffset (Num offsetMinutes))))
      | None \<Rightarrow>
     (case rxMatch offsetPattern raw of
        Some prefixed \<Rightarrow>
          (let direction = grp prefixed 1; hours = digitsToInt (grp prefixed 2);
               minutes = digitsToInt (case prefixed 3 of None \<Rightarrow> js ''0'' | Some m \<Rightarrow> m) in
           if hours > 23 \<or> minutes > 59 then None
           else let offsetMinutes =
                      (if direction = js ''+'' then 1 else - 1) * (hours * minutesInHour + minutes)
                in Some (Fixed offsetMinutes (js ''UTC'' @ formatOffset (Num offsetMinutes))))
      | None \<Rightarrow>
     (case rxMatch bareOffsetPattern raw of
        Some bare \<Rightarrow>
          (let direction = grp bare 1; hours = digitsToInt (grp bare 2);
               minutes = digitsToInt (case bare 3 of None \<Rightarrow> js ''0'' | Some m \<Rightarrow> m) in
           if hours > 23 \<or> minutes > 59 then None
           else let offsetMinutes =
                      (if direction = js ''+'' then 1 else - 1) * (hours * minutesInHour + minutes)
                in Some (Fixed offsetMinutes (js ''UTC'' @ formatOffset (Num offsetMinutes))))
      | None \<Rightarrow> None)))"

definition localTimeZone :: "env \<Rightarrow> jsstring" where
  "localTimeZone e = (if resolvedTimeZone e = [] then js ''UTC'' else resolvedTimeZone e)"

definition isValidIanaTimeZone :: "env \<Rightarrow> jsstring \<Rightarrow> bool" where
  "isValidIanaTimeZone e timeZone = validTimeZone e timeZone"

definition parseZone :: "env \<Rightarrow> jsstring option \<Rightarrow> ZoneSpec option" where
  "parseZone e raw =
     (case raw of
        None \<Rightarrow> None
      | Some r \<Rightarrow>
          (let v = trim r in
           if v = [] then None
           else if rxTest (seq [litI ''local'', Eos]) v
             then Some (Iana (localTimeZone e) (Some (js ''Local'')))
           else if rxTest (seq [Alt (litI ''utc'') (Alt (litI ''gmt'') (litI ''z'')), Eos]) v
             then Some (Fixed 0 (js ''UTC''))
           else case parseFixedOffset v of
                  Some fixed \<Rightarrow> Some fixed
                | None \<Rightarrow> if isValidIanaTimeZone e v then Some (Iana v None) else None))"

definition zoneDisplayName :: "ZoneSpec \<Rightarrow> jsstring" where
  "zoneDisplayName zone =
     (case zone of
        Fixed off lbl \<Rightarrow> lbl
      | Iana name lbl \<Rightarrow> (case lbl of None \<Rightarrow> name | Some l \<Rightarrow> l))"

text \<open>\<open>Date.UTC\<close> on numbers: NaN as soon as an argument is NaN.\<close>

definition dateUTCn :: "jsnum \<Rightarrow> jsnum \<Rightarrow> jsnum \<Rightarrow> jsnum \<Rightarrow> jsnum \<Rightarrow> jsnum \<Rightarrow> jsnum" where
  "dateUTCn y mo d h mi s =
     (case (y, mo, d, h, mi, s) of
        (Num y', Num mo', Num d', Num h', Num mi', Num s') \<Rightarrow> dateUTC y' mo' d' h' mi' s' 0
      | _ \<Rightarrow> NaN)"

definition getTimeZoneOffsetMilliseconds :: "env \<Rightarrow> Date \<Rightarrow> jsstring \<Rightarrow> exn + jsnum" where
  "getTimeZoneOffsetMilliseconds e date timeZone =
     (case toDateParts e date timeZone of
        Inl x \<Rightarrow> Inl x
      | Inr parts \<Rightarrow>
          (let asUtc = dateUTCn (pyear parts) (plusInt (pmonth parts) (- 1)) (pday parts)
                         (phour parts) (pminute parts) (psecond parts)
           in Inr (numSub asUtc (getTime date))))"

definition orZero :: "int option \<Rightarrow> int" where
  "orZero v = (case v of None \<Rightarrow> 0 | Some x \<Rightarrow> x)"

definition toInstantFromComponents :: "env \<Rightarrow> DateComponents \<Rightarrow> ZoneSpec \<Rightarrow> exn + Date" where
  "toInstantFromComponents e components zone =
     (let utcGuess = dateUTC (cyear components) (cmonth components - 1) (cday components)
                       (orZero (chour components)) (orZero (cminute components))
                       (orZero (csecond components)) (orZero (cmillisecond components))
      in case zone of
           Fixed off lbl \<Rightarrow> Inr (newDate (numSub utcGuess (mulConst (Num off) millisecondsInMinute)))
         | Iana name lbl \<Rightarrow>
             (case getTimeZoneOffsetMilliseconds e (newDate utcGuess) name of
                Inl x \<Rightarrow> Inl x
              | Inr firstOffset \<Rightarrow>
                  (let adjusted = numSub utcGuess firstOffset in
                   case getTimeZoneOffsetMilliseconds e (newDate adjusted) name of
                     Inl x \<Rightarrow> Inl x
                   | Inr secondOffset \<Rightarrow>
                       Inr (newDate (if numNeq secondOffset firstOffset
                                     then numSub utcGuess secondOffset else adjusted)))))"

definition formatInstantForZone :: "env \<Rightarrow> Date \<Rightarrow> ZoneSpec \<Rightarrow> exn + jsstring" where
  "formatInstantForZone e date zone =
     (case zone of
        Fixed off lbl \<Rightarrow>
          (let shifted = newDate (numAdd (getTime date) (mulConst (Num off) millisecondsInMinute));
               parts = \<lparr>pyear = getUTCFullYear shifted, pmonth = plusInt (getUTCMonth shifted) 1,
                        pday = getUTCDate shifted, phour = getUTCHours shifted,
                        pminute = getUTCMinutes shifted, psecond = getUTCSeconds shifted\<rparr>
           in Inr (formatDateString parts (Num off) lbl))
      | Iana name lbl \<Rightarrow>
          (case toDateParts e date name of
             Inl x \<Rightarrow> Inl x
           | Inr parts \<Rightarrow>
          (case getTimeZoneOffsetMilliseconds e date name of
             Inl x \<Rightarrow> Inl x
           | Inr offsetMs \<Rightarrow>
          (case zoneName e date name of
             Inl x \<Rightarrow> Inl x
           | Inr token \<Rightarrow>
               Inr (formatDateString parts (numTruncDiv offsetMs millisecondsInMinute) token)))))"

section \<open>The parser: calendar helpers\<close>

definition maxDateMilliseconds :: int where
  "maxDateMilliseconds = 8640000000000000"

definition expandTwoDigitYear :: "int \<Rightarrow> int" where
  "expandTwoDigitYear v = (if v \<ge> 69 then 1900 + v else 2000 + v)"

definition monthMap :: "(jsstring \<times> int) list" where
  "monthMap =
     [(js ''jan'', 1), (js ''january'', 1), (js ''feb'', 2), (js ''february'', 2),
      (js ''mar'', 3), (js ''march'', 3), (js ''apr'', 4), (js ''april'', 4),
      (js ''may'', 5), (js ''jun'', 6), (js ''june'', 6), (js ''jul'', 7), (js ''july'', 7),
      (js ''aug'', 8), (js ''august'', 8), (js ''sep'', 9), (js ''sept'', 9),
      (js ''september'', 9), (js ''oct'', 10), (js ''october'', 10), (js ''nov'', 11),
      (js ''november'', 11), (js ''dec'', 12), (js ''december'', 12)]"

definition parseMonthToken :: "jsstring \<Rightarrow> int option" where
  "parseMonthToken token = map_of monthMap (toLowerCase token)"

definition parseFractionMilliseconds :: "jsstring option \<Rightarrow> int" where
  "parseFractionMilliseconds rawFraction =
     (case rawFraction of
        None \<Rightarrow> 0
      | Some f \<Rightarrow> if f = [] then 0 else digitsToInt (take 3 (f @ js ''000'')))"

definition applyMeridiem :: "int \<Rightarrow> jsstring option \<Rightarrow> int option" where
  "applyMeridiem hour meridiem =
     (case meridiem of
        None \<Rightarrow> Some hour
      | Some m \<Rightarrow>
          if m = [] then Some hour
          else if hour < 1 \<or> hour > 12 then None
          else if toUpperCase m = js ''AM'' then Some (if hour = 12 then 0 else hour)
          else if toUpperCase m = js ''PM'' then Some (if hour = 12 then 12 else hour + 12)
          else None)"

definition isValidCalendarDate :: "int \<Rightarrow> int \<Rightarrow> int \<Rightarrow> bool" where
  "isValidCalendarDate year month day =
     (if month < 1 \<or> month > 12 \<or> day < 1 \<or> day > 31 then False
      else let candidate = newDate (dateUTC year (month - 1) day 0 0 0 0)
           in getUTCFullYear candidate = Num year
              \<and> plusInt (getUTCMonth candidate) 1 = Num month
              \<and> getUTCDate candidate = Num day)"

definition buildDateFromComponents :: "env \<Rightarrow> DateComponents \<Rightarrow> ZoneSpec \<Rightarrow> exn + Date option" where
  "buildDateFromComponents e base sourceZone =
     (let hour = orZero (chour base); minute = orZero (cminute base);
          second = orZero (csecond base); millisecond = orZero (cmillisecond base)
      in if \<not> isValidCalendarDate (cyear base) (cmonth base) (cday base) then Inr None
         else if hour < 0 \<or> hour > 23 \<or> minute < 0 \<or> minute > 59 \<or> second < 0 \<or> second > 59
           then Inr None
         else if millisecond < 0 \<or> millisecond > 999 then Inr None
         else (case toInstantFromComponents e base sourceZone of
                 Inl x \<Rightarrow> Inl x
               | Inr d \<Rightarrow> Inr (Some d)))"

definition parseComponentsWithMeridiem ::
  "env \<Rightarrow> int \<Rightarrow> int \<Rightarrow> int \<Rightarrow> int \<Rightarrow> int \<Rightarrow> int \<Rightarrow> int \<Rightarrow> ZoneSpec \<Rightarrow> jsstring option \<Rightarrow> exn + Date option" where
  "parseComponentsWithMeridiem e year month day hour minute second millisecond sourceZone meridiem =
     (case applyMeridiem hour meridiem of
        None \<Rightarrow> Inr None
      | Some normalizedHour \<Rightarrow>
          buildDateFromComponents e
            \<lparr>cyear = year, cmonth = month, cday = day, chour = Some normalizedHour,
             cminute = Some minute, csecond = Some second, cmillisecond = Some millisecond\<rparr>
            sourceZone)"

section \<open>The parser: the format parsers\<close>

definition parseNow :: "env \<Rightarrow> jsstring \<Rightarrow> Date option" where
  "parseNow e input =
     (if \<not> rxTest (litI ''now'') (trim input) then None
      else let unixSeconds = truncDiv (dateNow e) 1000
           in Some (newDate (Num (unixSeconds * 1000))))"

definition agoPattern :: regex where
  "agoPattern =
     seq [Grp 1 (Rep digit 1 None), Rep space 1 None,
          Grp 2 (Alt (seq [litI ''minute'', Opt (chI 115)])
                (Alt (seq [litI ''hour'', Opt (chI 115)])
                (Alt (litI ''day'') (litI ''days'')))),
          Rep space 1 None, litI ''ago'', Eos]"

definition startsWith :: "jsstring \<Rightarrow> jsstring \<Rightarrow> bool" where
  "startsWith s pre = (take (length pre) s = pre)"

text \<open>
  \<open>Number(match[1])\<close> is the double nearest to the decimal numeral; the amount times the
  multiplier and the difference from the clock are rounded in turn.
\<close>

definition parseAgo :: "env \<Rightarrow> jsstring \<Rightarrow> Date option" where
  "parseAgo e input =
     (case rxMatch agoPattern (trim input) of
        None \<Rightarrow> None
      | Some m \<Rightarrow>
          (let amount = toDouble (bigIntOfDigits (grp m 1));
               unit = toLowerCase (grp m 2)
           in if \<not> isFinite amount then None
              else let multiplier =
                         (if startsWith unit (js ''minute'') then 60000
                          else if startsWith unit (js ''hour'') then 3600000
                          else 86400000)
                   in Some (newDate (numSub (Num (dateNow e)) (mulConst amount multiplier)))))"

definition parseNumeric :: "env \<Rightarrow> jsstring \<Rightarrow> ZoneSpec \<Rightarrow> exn + Date option" where
  "parseNumeric e input sourceZone =
     (if \<not> rxTest (seq [Rep digit 1 None, Eos]) input then Inr None
      else if length input = 14 \<and> startsWith input (js ''2'') then
        (case rxMatch (seq [Grp 1 (Rep digit 4 (Some 4)), Grp 2 (Rep digit 2 (Some 2)),
                            Grp 3 (Rep digit 2 (Some 2)), Grp 4 (Rep digit 2 (Some 2)),
                            Grp 5 (Rep digit 2 (Some 2)), Grp 6 (Rep digit 2 (Some 2)), Eos]) input of
           None \<Rightarrow> Inr None
         | Some m \<Rightarrow>
             parseComponentsWithMeridiem e (digitsToInt (grp m 1)) (digitsToInt (grp m 2))
               (digitsToInt (grp m 3)) (digitsToInt (grp m 4)) (digitsToInt (grp m 5))
               (digitsToInt (grp m 6)) 0 sourceZone None)
      else if length input = 8 \<and> startsWith input (js ''2'') then
        (case rxMatch (seq [Grp 1 (Rep digit 4 (Some 4)), Grp 2 (Rep digit 2 (Some 2)),
                            Grp 3 (Rep digit 2 (Some 2)), Eos]) input of
           None \<Rightarrow> Inr None
         | Some m \<Rightarrow>
             buildDateFromComponents e
               \<lparr>cyear = digitsToInt (grp m 1), cmonth = digitsToInt (grp m 2),
                cday = digitsToInt (grp m 3), chour = None, cminute = None, csecond = None,
                cmillisecond = None\<rparr> sourceZone)
      else if length input = 4 \<and> startsWith input (js ''2'') then
        buildDateFromComponents e
          \<lparr>cyear = digitsToInt input, cmonth = 1, cday = 1, chour = None, cminute = None,
           csecond = None, cmillisecond = None\<rparr> sourceZone
      else
        (let numeric = bigIntOfDigits input;
             milliseconds =
               (if length input > 16 then toDouble (numeric div 1000000)
                else if length input > 13 then toDouble (numeric div 1000)
                else if length input > 10 then toDouble numeric
                else toDouble (numeric * 1000))
         in case milliseconds of
              Num v \<Rightarrow>
                if v < 0 \<or> \<bar>v\<bar> > maxDateMilliseconds then Inr None
                else Inr (Some (newDate (Num v)))
            | _ \<Rightarrow> Inr None))"

definition optDigits :: "captures \<Rightarrow> nat \<Rightarrow> int" where
  "optDigits m i = digitsToInt (case m i of None \<Rightarrow> js ''0'' | Some s \<Rightarrow> s)"

definition chinesePattern :: regex where
  "chinesePattern =
     seq [Grp 1 (Rep digit 4 (Some 4)), ch 24180, Grp 2 (Rep digit 1 (Some 2)), ch 26376,
          Grp 3 (Rep digit 1 (Some 2)), ch 26085,
          Opt (seq [Rep space 1 None, Grp 4 (Rep digit 1 (Some 2)), ch 58,
                    Grp 5 (Rep digit 2 (Some 2))]), Eos]"

definition parseChineseDate :: "env \<Rightarrow> jsstring \<Rightarrow> ZoneSpec \<Rightarrow> exn + Date option" where
  "parseChineseDate e input sourceZone =
     (case rxMatch chinesePattern (trim input) of
        None \<Rightarrow> Inr None
      | Some m \<Rightarrow>
          parseComponentsWithMeridiem e (digitsToInt (grp m 1)) (digitsToInt (grp m 2))
            (digitsToInt (grp m 3)) (optDigits m 4) (optDigits m 5) 0 0 sourceZone None)"

definition meridiemPattern :: regex where
  "meridiemPattern = Alt (litI ''AM'') (litI ''PM'')"

definition plainDatePattern :: regex where
  "plainDatePattern =
     seq [Grp 1 (Rep digit 4 (Some 4)), ch 45, Grp 2 (Rep digit 1 (Some 2)), ch 45,
          Grp 3 (Rep digit 1 (Some 2)), Eos]"

definition yearMonthPattern :: regex where
  "yearMonthPattern = seq [Grp 1 (Rep digit 4 (Some 4)), ch 45, Grp 2 (Rep digit 1 (Some 2)), Eos]"

definition monthTextPattern :: regex where
  "monthTextPattern =
     seq [Grp 1 (Rep digit 4 (Some 4)), ch 45, Grp 2 (Rep alpha 3 (Some 3)), ch 45,
          Grp 3 (Rep digit 1 (Some 2)), Eos]"

text \<open>Under the \<open>i\<close> flag the class \<open>[T\s]\<close> takes \<open>t\<close> as well.\<close>

definition dateTimePattern :: regex where
  "dateTimePattern =
     seq [Grp 1 (Rep digit 4 (Some 4)), ch 45, Grp 2 (Rep digit 1 (Some 2)), ch 45,
          Grp 3 (Rep digit 1 (Some 2)), Cls ([(84, 84), (116, 116)] @ space),
          Grp 4 (Rep digit 1 (Some 2)), ch 58, Grp 5 (Rep digit 2 (Some 2)),
          Opt (seq [ch 58, Grp 6 (Rep digit 2 (Some 2))]),
          Opt (seq [oneOf ''.,'', Grp 7 (Rep digit 1 (Some 9))]),
          Opt (seq [Rep space 0 None, Grp 8 meridiemPattern]), Eos]"

definition parseDashDate :: "env \<Rightarrow> jsstring \<Rightarrow> ZoneSpec \<Rightarrow> exn + Date option" where
  "parseDashDate e input sourceZone =
     (case rxMatch plainDatePattern input of
        Some plainDate \<Rightarrow>
          buildDateFromComponents e
            \<lparr>cyear = digitsToInt (grp plainDate 1), cmonth = digitsToInt (grp plainDate 2),
             cday = digitsToInt (grp plainDate 3), chour = None, cminute = None, csecond = None,
             cmillisecond = None\<rparr> sourceZone
      | None \<Rightarrow>
     (case rxMatch yearMonthPattern input of
        Some yearMonth \<Rightarrow>
          buildDateFromComponents e
            \<lparr>cyear = digitsToInt (grp yearMonth 1), cmonth = digitsToInt (grp yearMonth 2),
             cday = 1, chour = None, cminute = None, csecond = None, cmillisecond = None\<rparr>
            sourceZone
      | None \<Rightarrow>
     (case rxMatch monthTextPattern input of
        Some monthText \<Rightarrow>
          (case parseMonthToken (grp monthText 2) of
             None \<Rightarrow> Inr None
           | Some month \<Rightarrow>
               buildDateFromComponents e
                 \<lparr>cyear = digitsToInt (grp monthText 1), cmonth = month,
                  cday = digitsToInt (grp monthText 3), chour = None, cminute = None,
                  csecond = None, cmillisecond = None\<rparr> sourceZone)
      | None \<Rightarrow>
     (case rxMatch dateTimePattern input of
        None \<Rightarrow> Inr None
      | Some dateTime \<Rightarrow>
          parseComponentsWithMeridiem e (digitsToInt (grp dateTime 1))
            (digitsToInt (grp dateTime 2)) (digitsToInt (grp dateTime 3))
            (digitsToInt (grp dateTime 4)) (digitsToInt (grp dateTime 5)) (optDigits dateTime 6)
            (parseFractionMilliseconds (dateTime 7)) sourceZone (dateTime 8)))))"

definition slashPattern :: regex where
  "slashPattern =
     seq [Grp 1 (Rep digit 1 (Some 4)), ch 47, Grp 2 (Rep digit 1 (Some 2)), ch 47,
          Grp 3 (Rep digit 1 (Some 4)),
          Opt (seq [Rep space 1 None, Grp 4 (Rep digit 1 (Some 2)), ch 58,
                    Grp 5 (Rep digit 2 (Some 2)),
                    Opt (seq [ch 58, Grp 6 (Rep digit 2 (Some 2))]),
                    Opt (seq [oneOf ''.,'', Grp 7 (Rep digit 1 (Some 9))]),
                    Opt (seq [Rep space 0 None, Grp 8 meridiemPattern])]), Eos]"

text \<open>The loop over the attempts: the first candidate that is not null is returned.\<close>

fun tryAttempts ::
  "env \<Rightarrow> (int \<times> int \<times> int) list \<Rightarrow> int \<Rightarrow> int \<Rightarrow> int \<Rightarrow> int \<Rightarrow> ZoneSpec \<Rightarrow> jsstring option \<Rightarrow> exn + Date option" where
  "tryAttempts e [] hour minute second millisecond sourceZone meridiem = Inr None"
| "tryAttempts e ((y, m, d) # attempts) hour minute second millisecond sourceZone meridiem =
     (case parseComponentsWithMeridiem e y m d hour minute second millisecond sourceZone meridiem of
        Inl x \<Rightarrow> Inl x
      | Inr (Some candidate) \<Rightarrow> Inr (Some candidate)
      | Inr None \<Rightarrow> tryAttempts e attempts hour minute second millisecond sourceZone meridiem)"

definition slashAttempts :: "jsstring \<Rightarrow> jsstring \<Rightarrow> jsstring \<Rightarrow> (int \<times> int \<times> int) list" where
  "slashAttempts a b c =
     (if length a = 4 then [(digitsToInt a, digitsToInt b, digitsToInt c)]
      else if length c = 4 then [(digitsToInt c, digitsToInt a, digitsToInt b)]
      else if length a \<le> 2 \<and> length b \<le> 2 \<and> length c \<le> 2 then
        [(expandTwoDigitYear (digitsToInt a), digitsToInt b, digitsToInt c),
         (expandTwoDigitYear (digitsToInt c), digitsToInt a, digitsToInt b)]
      else [])"

definition parseSlashDate :: "env \<Rightarrow> jsstring \<Rightarrow> ZoneSpec \<Rightarrow> exn + Date option" where
  "parseSlashDate e input sourceZone =
     (case rxMatch slashPattern input of
        None \<Rightarrow> Inr None
      | Some m \<Rightarrow>
          (let a = grp m 1; b = grp m 2; c = grp m 3;
               hour = optDigits m 4; minute = optDigits m 5; second = optDigits m 6;
               millisecond = parseFractionMilliseconds (m 7);
               meridiem = m 8
           in tryAttempts e (slashAttempts a b c) hour minute second millisecond sourceZone meridiem))"

definition dayMonthNamePattern :: regex where
  "dayMonthNamePattern =
     seq [Grp 1 (Rep digit 1 (Some 2)), Rep space 1 None, Grp 2 (Rep alpha 3 (Some 3)),
          Rep space 1 None, Grp 3 (Rep digit 4 (Some 4)), ch 44, Rep space 0 None,
          Grp 4 (Rep digit 1 (Some 2)), ch 58, Grp 5 (Rep digit 2 (Some 2)),
          Opt (seq [ch 58, Grp 6 (Rep digit 2 (Some 2))]), Eos]"

definition parseDayMonthName :: "env \<Rightarrow> jsstring \<Rightarrow> ZoneSpec \<Rightarrow> exn + Date option" where
  "parseDayMonthName e input sourceZone =
     (case rxMatch dayMonthNamePattern (trim input) of
        None \<Rightarrow> Inr None
      | Some m \<Rightarrow>
          (case parseMonthToken (grp m 2) of
             None \<Rightarrow> Inr None
           | Some month \<Rightarrow>
               parseComponentsWithMeridiem e (digitsToInt (grp m 3)) month (digitsToInt (grp m 1))
                 (digitsToInt (grp m 4)) (digitsToInt (grp m 5)) (optDigits m 6) 0 sourceZone None))"

definition monthNamePattern :: regex where
  "monthNamePattern =
     seq [Grp 1 (Rep alpha 3 (Some 9)), Rep space 1 None, Grp 2 (Rep digit 1 (Some 2)), ch 44,
          Rep space 0 None, Grp 3 (Rep digit 4 (Some 4)),
          Opt (seq [Rep space 1 None, Grp 4 (Rep digit 1 (Some 2)), ch 58,
                    Grp 5 (Rep digit 2 (Some 2)), ch 58, Grp 6 (Rep digit 2 (Some 2)),
                    Rep space 0 None, Grp 7 meridiemPattern]), Eos]"

definition parseMonthNameDate :: "env \<Rightarrow> jsstring \<Rightarrow> ZoneSpec \<Rightarrow> exn + Date option" where
  "parseMonthNameDate e input sourceZone =
     (case rxMatch monthNamePattern (trim input) of
        None \<Rightarrow> Inr None
      | Some m \<Rightarrow>
          (case parseMonthToken (grp m 1) of
             None \<Rightarrow> Inr None
           | Some month \<Rightarrow>
               (let hour = optDigits m 4; minute = optDigits m 5; second = optDigits m 6
                in parseComponentsWithMeridiem e (digitsToInt (grp m 3)) month
                     (digitsToInt (grp m 2)) hour minute second 0 sourceZone (m 7))))"

definition ansiPattern :: regex where
  "ansiPattern =
     seq [Opt (seq [Rep alpha 3 (Some 3), Rep space 1 None]), Grp 1 (Rep alpha 3 (Some 3)),
          Rep space 1 None, Grp 2 (Rep digit 1 (Some 2)), Rep space 1 None,
          Grp 3 (Rep digit 1 (Some 2)), ch 58, Grp 4 (Rep digit 2 (Some 2)), ch 58,
          Grp 5 (Rep digit 2 (Some 2)), Rep space 1 None, Grp 6 (Rep digit 4 (Some 4)), Eos]"

definition parseAnsiStyle :: "env \<Rightarrow> jsstring \<Rightarrow> ZoneSpec \<Rightarrow> exn + Date option" where
  "parseAnsiStyle e input sourceZone =
     (case rxMatch ansiPattern (trim input) of
        None \<Rightarrow> Inr None
      | Some m \<Rightarrow>
          (case parseMonthToken (grp m 1) of
             None \<Rightarrow> Inr None
           | Some month \<Rightarrow>
               parseComponentsWithMeridiem e (digitsToInt (grp m 6)) month (digitsToInt (grp m 2))
                 (digitsToInt (grp m 3)) (digitsToInt (grp m 4)) (digitsToInt (grp m 5)) 0
                 sourceZone None))"

definition zoneWord :: ranges where
  "zoneWord = [(65, 90), (97, 122), (95, 95)]"

definition hasExplicitTimeZone :: "jsstring \<Rightarrow> bool" where
  "hasExplicitTimeZone input =
     (let trimmed = trim input in
      if rxSearch (seq [Wb, Alt (litI ''UTC'') (litI ''GMT''), Wb]) trimmed then True
      else if rxSearch (seq [litI ''Etc/GMT'', oneOf ''+-'', Rep digit 1 (Some 2)]) trimmed then True
      else if rxSearch (seq [Wb, Rep zoneWord 1 None, ch 47, Rep zoneWord 1 None, Wb]) trimmed
        then True
      else if rxSearch (seq [oneOf ''+-'', Rep digit 2 (Some 2), Opt (ch 58),
                             Rep digit 2 (Some 2), NotAhead digit]) trimmed then True
      else if rxSearch (seq [Cls digit, ch 90, Eos]) trimmed then True
      else False)"

definition normalizeNativeInput :: "jsstring \<Rightarrow> jsstring" where
  "normalizeNativeInput input =
     (let n0 = trim input;
          n1 = rxReplace (seq [Grp 1 (Cls digit), ch 44, Grp 2 (Rep digit 3 (Some 9)), NotAhead digit])
                 (\<lambda>m. grp m 1 @ js ''.'' @ take 3 (grp m 2)) None n0;
          n2 = rxReplace (seq [ch 46, Grp 1 (Rep digit 3 (Some 3)), Rep digit 1 None])
                 (\<lambda>m. js ''.'' @ grp m 1) None n1;
          n3 = rxReplace (Rep space 1 None) (\<lambda>m. js '' '') None n2
      in n3)"

definition parseWithNativeDate :: "env \<Rightarrow> jsstring \<Rightarrow> ZoneSpec \<Rightarrow> Date option" where
  "parseWithNativeDate e input sourceZone =
     (let explicitTimeZone = hasExplicitTimeZone input;
          sourceIsLocal = (case sourceZone of Iana name lbl \<Rightarrow> name = localTimeZone e
                           | Fixed off lbl \<Rightarrow> False)
      in if \<not> explicitTimeZone \<and> \<not> sourceIsLocal then None
         else let timestamp = dateParse e (normalizeNativeInput input)
              in if timestamp = NaN then None else Some (newDate timestamp))"

section \<open>The parser: classification, zone suffix, pipeline\<close>

datatype ParseState = Unknown | Digit | DigitDash | DigitSlash | DigitAlpha | Alpha

definition detectState :: "jsstring \<Rightarrow> ParseState" where
  "detectState input =
     (let v = trim input in
      if v = [] then Unknown
      else if rxTest (Cls digit) v then
        (if rxTest (seq [Rep digit 1 None, Eos]) v then Digit
         else if 45 \<in> set v then DigitDash
         else if 47 \<in> set v then DigitSlash
         else if rxSearch (Cls [(65, 90), (97, 122), (19968, 40959)]) v then DigitAlpha
         else Digit)
      else if rxTest (Cls alpha) v then Alpha
      else Unknown)"

text \<open>\<open>s.lastIndexOf(c)\<close> for a single code unit: -1 when it does not occur.\<close>

definition lastIndexOf :: "jsstring \<Rightarrow> jschar \<Rightarrow> int" where
  "lastIndexOf s c =
     (if c \<in> set s then int (length s) - 1 - int (length (takeWhile (\<lambda>x. x \<noteq> c) (rev s)))
      else - 1)"

definition splitInputAndZone :: "env \<Rightarrow> jsstring \<Rightarrow> ZoneSpec \<Rightarrow> jsstring \<times> ZoneSpec" where
  "splitInputAndZone e rawInput defaultSourceZone =
     (let trimmed = trim rawInput;
          commaIndex = lastIndexOf trimmed 44
      in if commaIndex \<le> 0 then (trimmed, defaultSourceZone)
         else let left = trim (take (nat commaIndex) trimmed);
                  right = trim (drop (nat (commaIndex + 1)) trimmed)
              in case parseZone e (Some right) of
                   None \<Rightarrow> (trimmed, defaultSourceZone)
                 | Some zone \<Rightarrow> (left, zone))"

type_synonym ParserFn = "env \<Rightarrow> jsstring \<Rightarrow> ZoneSpec \<Rightarrow> exn + Date option"

definition nowEntry :: "jsstring \<times> ParserFn" where
  "nowEntry = (js ''now'', \<lambda>e input zone. Inr (parseNow e input))"

definition agoEntry :: "jsstring \<times> ParserFn" where
  "agoEntry = (js ''ago'', \<lambda>e input zone. Inr (parseAgo e input))"

definition nativeEntry :: "jsstring \<times> ParserFn" where
  "nativeEntry = (js ''native'', \<lambda>e input zone. Inr (parseWithNativeDate e input zone))"

definition parserPipeline :: "ParseState \<Rightarrow> (jsstring \<times> ParserFn) list" where
  "parserPipeline state =
     (let common = [nowEntry, agoEntry] in
      if state = Digit then common @ [(js ''numeric'', parseNumeric), nativeEntry]
      else if state = DigitDash then
        common @ [(js ''dash'', parseDashDate), (js ''chinese'', parseChineseDate), nativeEntry]
      else if state = DigitSlash then common @ [(js ''slash'', parseSlashDate), nativeEntry]
      else if state = DigitAlpha then
        common @ [(js ''chinese'', parseChineseDate), (js ''day-month-name'', parseDayMonthName),
                  nativeEntry]
      else if state = Alpha then
        common @ [(js ''month-name'', parseMonthNameDate), (js ''ansi'', parseAnsiStyle),
                  nativeEntry]
      else common @ [(js ''numeric'', parseNumeric), (js ''dash'', parseDashDate),
                     (js ''slash'', parseSlashDate), (js ''chinese'', parseChineseDate),
                     nativeEntry])"

datatype ParseResult =
    ParseSuccess jsstring ZoneSpec jsstring Date jsstring
  | ParseFailure jsstring ZoneSpec jsstring jsstring

text \<open>The usage hint of the empty input, as its code units.\<close>

definition emptyInputError :: jsstring where
  "emptyInputError =
     [35831, 36755, 20837, 26102, 38388, 20869, 23481, 65292, 20363, 22914]
     @ js '': now '' @ [25110] @ js '' 2019-01-30 21:24:44,gmt-7''"

text \<open>The loop over the pipeline: a null or NaN result passes to the next entry.\<close>

fun runParsers :: "env \<Rightarrow> (jsstring \<times> ParserFn) list \<Rightarrow> jsstring \<Rightarrow> ZoneSpec \<Rightarrow> exn + ParseResult" where
  "runParsers e [] input sourceZone =
     Inr (ParseFailure input sourceZone (zoneDisplayName sourceZone)
            (js ''Could not find date format for '' @ input))"
| "runParsers e ((lbl, parser) # parsers) input sourceZone =
     (case parser e input sourceZone of
        Inl x \<Rightarrow> Inl x
      | Inr None \<Rightarrow> runParsers e parsers input sourceZone
      | Inr (Some parsed) \<Rightarrow>
          if getTime parsed = NaN then runParsers e parsers input sourceZone
          else Inr (ParseSuccess input sourceZone (zoneDisplayName sourceZone) parsed lbl))"

definition parseDateInput :: "env \<Rightarrow> jsstring \<Rightarrow> ZoneSpec \<Rightarrow> exn + ParseResult" where
  "parseDateInput e rawInput defaultSourceZone =
     (case splitInputAndZone e rawInput defaultSourceZone of
        (input, sourceZone) \<Rightarrow>
          if input = [] then
            Inr (ParseFailure input sourceZone (zoneDisplayName sourceZone) emptyInputError)
          else runParsers e (parserPipeline (detectState input)) input sourceZone)"

section \<open>A sample environment\<close>

text \<open>
  An environment whose zone database knows the zone UTC only, with the civil fields of
  UTC, a fixed clock and a \<open>Date.parse\<close> that recognises nothing. It serves to run the
  definitions on concrete inputs.
\<close>

definition utcEnv :: env where
  "utcEnv =
     \<lparr>resolvedTimeZone = js ''UTC'',
      validTimeZone = (\<lambda>z. z = js ''UTC''),
      dateTimeParts = (\<lambda>z t.
        [(js ''month'', monthFromDay (t div msPerDay) + 1),
         (js ''day'', dateFromDay (t div msPerDay)),
         (js ''year'', yearFromDay (t div msPerDay)),
         (js ''hour'', (t div 3600000) mod 24),
         (js ''minute'', (t div 60000) mod 60),
         (js ''second'', (t div 1000) mod 60)]),
      timeZoneNamePart = (\<lambda>z t. Some (js ''UTC'')),
      dateNow = 1548854618000,
      dateParse = (\<lambda>s. NaN)\<rparr>"


section \<open>Reference definitions for the statements\<close>

text \<open>
  The epoch heuristic in the words of the specification, to be compared with
  \<open>parseNumeric\<close>: more than 16 digits are nanoseconds, more than 13 microseconds, more
  than 10 milliseconds, otherwise seconds; the value is the millisecond count.
\<close>

definition specEpochMilliseconds :: "jsstring \<Rightarrow> int" where
  "specEpochMilliseconds s =
     (if length s > 16 then bigIntOfDigits s div 1000000
      else if length s > 13 then bigIntOfDigits s div 1000
      else if length s > 10 then bigIntOfDigits s
      else bigIntOfDigits s * 1000)"






text \<open>
  The hour under a meridiem in the words of the specification, to be compared with the
  parsers: an hour outside 1..12 makes the parser decline, 12 AM is hour 0, 12 PM is
  hour 12, the hours 1..11 gain 12 under PM and stay under AM.
\<close>

definition specMeridiemHour :: "int \<Rightarrow> jsstring \<Rightarrow> int option" where
  "specMeridiemHour h mer =
     (if h < 1 \<or> 12 < h then None
      else if toUpperCase mer = js ''AM'' then (if h = 12 then Some 0 else Some h)
      else (if h = 12 then Some 12 else Some (h + 12)))"

text \<open>
  The text of a time of day as the dash and slash parsers take it: one or two hour
  digits, a colon, two minute digits, then optionally a colon and two second digits,
  then optionally a dot or comma and one to nine fraction digits.
\<close>

definition secsText :: "jsstring option \<Rightarrow> jsstring" where
  "secsText sd = (case sd of None \<Rightarrow> [] | Some s \<Rightarrow> 58 # s)"

definition fracText :: "jschar \<Rightarrow> jsstring option \<Rightarrow> jsstring" where
  "fracText c fd = (case fd of None \<Rightarrow> [] | Some f \<Rightarrow> c # f)"

definition timeText :: "jsstring \<Rightarrow> jsstring \<Rightarrow> jsstring option \<Rightarrow> jschar \<Rightarrow> jsstring option \<Rightarrow> jsstring" where
  "timeText hs mi sd c fd = hs @ 58 # mi @ secsText sd @ fracText c fd"

definition timeFields :: "jsstring \<Rightarrow> jsstring \<Rightarrow> jsstring option \<Rightarrow> jschar \<Rightarrow> jsstring option \<Rightarrow> bool" where
  "timeFields hs mi sd c fd =
     (list_all (inRanges digit) hs \<and> 1 \<le> length hs \<and> length hs \<le> 2
      \<and> list_all (inRanges digit) mi \<and> length mi = 2
      \<and> (case sd of None \<Rightarrow> True | Some s \<Rightarrow> list_all (inRanges digit) s \<and> length s = 2)
      \<and> (c = 46 \<or> c = 44)
      \<and> (case fd of None \<Rightarrow> True
          | Some f \<Rightarrow> list_all (inRanges digit) f \<and> 1 \<le> length f \<and> length f \<le> 9))"

text \<open>
  A pattern leads from one state of the matcher to another when, whatever the code unit
  before the position, the first match that the matcher tries from the one ends in the
  other.
\<close>

definition leads :: "regex \<Rightarrow> captures \<times> jsstring \<Rightarrow> captures \<times> jsstring \<Rightarrow> bool" where
  "leads r a b = (\<forall>p. \<exists>p' more. rmatch r (fst a, p, snd a) = (fst b, p', snd b) # more)"

text \<open>
  The default source zone as the data model has it: the name of a named zone is a zone
  of the zone database.
\<close>

definition zoneOk :: "env \<Rightarrow> ZoneSpec \<Rightarrow> bool" where
  "zoneOk e z = (case z of Iana name lbl \<Rightarrow> validTimeZone e name | Fixed off lbl \<Rightarrow> True)"

text \<open>
  What the totality of the parser asks of the environment: the local zone is a zone of
  the zone database, and for a zone of the database and an instant within
  \<open>3 * 10 ^ 14\<close> milliseconds of the epoch, which covers the years 0 to 9999, the offset
  that \<open>getTimeZoneOffsetMilliseconds\<close> computes from the fields of the database is a
  number of at most \<open>10 ^ 15\<close> milliseconds in size.
\<close>

definition envOk :: "env \<Rightarrow> bool" where
  "envOk e =
     (validTimeZone e (localTimeZone e)
      \<and> (\<forall>name t. validTimeZone e name \<and> \<bar>t\<bar> \<le> 300000000000000 \<longrightarrow>
            (\<exists>ofs. getTimeZoneOffsetMilliseconds e (Num t) name = Inr (Num ofs)
                   \<and> \<bar>ofs\<bar> \<le> 1000000000000000)))"

text \<open>An entry of the pipeline declines: its parser returns null or an invalid date.\<close>

definition declines :: "env \<Rightarrow> jsstring \<Rightarrow> ZoneSpec \<Rightarrow> jsstring \<times> ParserFn \<Rightarrow> bool" where
  "declines e input zone entry =
     (snd entry e input zone = Inr None \<or> snd entry e input zone = Inr (Some NaN))"

text \<open>
  A string of at most \<open>n\<close> digits, and a pattern in which the capture group \<open>i\<close>, where
  it occurs, is a run of at most \<open>n\<close> digits.
\<close>

definition shortDigits :: "nat \<Rightarrow> jsstring \<Rightarrow> bool" where
  "shortDigits n x = (length x \<le> n \<and> list_all (inRanges digit) x)"

fun boundedGroup :: "nat \<Rightarrow> nat \<Rightarrow> regex \<Rightarrow> bool" where
  "boundedGroup i n (Grp j a) =
     (if j = i then (case a of Rep rs m (Some b) \<Rightarrow> rs = digit \<and> b \<le> n | _ \<Rightarrow> False)
      else boundedGroup i n a)"
| "boundedGroup i n (Cat a b) = (boundedGroup i n a \<and> boundedGroup i n b)"
| "boundedGroup i n (Alt a b) = (boundedGroup i n a \<and> boundedGroup i n b)"
| "boundedGroup i n (Opt a) = boundedGroup i n a"
| "boundedGroup i n (Cls rs) = True"
| "boundedGroup i n (Rep rs m b) = True"
| "boundedGroup i n Eps = True"
| "boundedGroup i n Eos = True"
| "boundedGroup i n Wb = True"
| "boundedGroup i n (NotAhead rs) = True"

section \<open>Evaluation on concrete inputs\<close>

lemma natDigits_lt10: "n < 10 \<Longrightarrow> natDigits n = [48 + n]"
  by (subst natDigits.simps) simp

lemma natDigits_ge10: "n \<ge> 10 \<Longrightarrow> natDigits n = natDigits (n div 10) @ [48 + n mod 10]"
  by (subst natDigits.simps) simp

named_theorems ev \<open>unfolding rules that evaluate the definitions on concrete inputs\<close>

lemmas [ev] = Let_def js_def digit_def space_def alpha_def trim_def rxTest_def rxMatch_def
  seq_def lit_def litI_def ch_def chI_def oneOf_def lowerChar_def upperChar_def grp_def
  toUpperCase_def toLowerCase_def digitsToInt_def optDigits_def startsWith_def
  minutesInHour_def millisecondsInMinute_def pad_def padStart_def numToString_def
  intToString_def natDigits_lt10 natDigits_ge10 formatOffset_def parseFixedOffset_def
  etcPattern_def offsetPattern_def bareOffsetPattern_def parseZone_def
  isValidIanaTimeZone_def localTimeZone_def
  parseDateInput_def splitInputAndZone_def lastIndexOf_def detectState_def
  parserPipeline_def nowEntry_def agoEntry_def nativeEntry_def parseNow_def parseAgo_def
  agoPattern_def parseDashDate_def plainDatePattern_def yearMonthPattern_def
  monthTextPattern_def dateTimePattern_def meridiemPattern_def
  parseComponentsWithMeridiem_def applyMeridiem_def buildDateFromComponents_def
  isValidCalendarDate_def orZero_def parseFractionMilliseconds_def
  toInstantFromComponents_def newDate_def timeClip_def getTime_def numSub_def toDouble_def
  roundNat_def dateUTC_def makeDay_def makeTime_def dayFromYear_def monthStart_def
  inLeapYear_def daysInYear_def msPerDay_def getUTCFullYear_def getUTCMonth_def
  getUTCDate_def getUTCHours_def getUTCMinutes_def getUTCSeconds_def yearFromDay_def
  dayWithinYear_def monthFromDay_def dateFromDay_def yearAndDay_def plusInt_def
  zoneDisplayName_def rxSearch_def formatInstantForZone_def formatDateString_def
  parseSlashDate_def slashPattern_def slashAttempts_def expandTwoDigitYear_def

lemma utcEnv_simps:
  "validTimeZone utcEnv z = (z = js ''UTC'')"
  "resolvedTimeZone utcEnv = js ''UTC''"
  "dateNow utcEnv = 1548854618000"
  "dateParse utcEnv s = NaN"
  "timeZoneNamePart utcEnv z t = Some (js ''UTC'')"
  by (simp_all add: utcEnv_def)

section \<open>Two-digit years\<close>

text \<open>
  C7: a two-digit year value \<open>v\<close> in 0..99 expands to \<open>1900 + v\<close> from 69 on and to
  \<open>2000 + v\<close> below 69; 69 gives 1969, 68 gives 2068, 0 gives 2000.
\<close>

theorem expandTwoDigitYear_exact:
  "(\<forall>v. 0 \<le> v \<and> v \<le> 99 \<longrightarrow>
         (v \<ge> 69 \<longrightarrow> expandTwoDigitYear v = 1900 + v) \<and>
         (v < 69 \<longrightarrow> expandTwoDigitYear v = 2000 + v))
   \<and> expandTwoDigitYear 69 = 1969
   \<and> expandTwoDigitYear 68 = 2068
   \<and> expandTwoDigitYear 0 = 2000"
  by (simp add: expandTwoDigitYear_def)

theorem expandTwoDigitYear_exact_witness:
  "(0::int) \<le> 70 \<and> (70::int) \<le> 99 \<and> (70::int) \<ge> 69 \<and> expandTwoDigitYear 70 = 1970
   \<and> (0::int) \<le> 12 \<and> (12::int) \<le> 99 \<and> (12::int) < 69 \<and> expandTwoDigitYear 12 = 2012"
  using expandTwoDigitYear_exact by simp

section \<open>Rounding to a double\<close>

lemma bitlen_pos: "n > 0 \<Longrightarrow> bitlen n = Suc (bitlen (n div 2))"
  by (subst bitlen.simps) simp

lemma bitlen_bounds: "n > 0 \<Longrightarrow> 2 ^ (bitlen n - 1) \<le> n \<and> n < 2 ^ bitlen n"
proof (induction n rule: bitlen.induct)
  case (1 n)
  show ?case
  proof (cases "n div 2 > 0")
    case True
    then have ih: "2 ^ (bitlen (n div 2) - 1) \<le> n div 2 \<and> n div 2 < 2 ^ bitlen (n div 2)"
      using 1 by simp
    have b: "bitlen n = Suc (bitlen (n div 2))" using 1(2) by (rule bitlen_pos)
    have bp: "bitlen (n div 2) > 0" using True by (subst bitlen.simps) simp
    then obtain k where k: "bitlen (n div 2) = Suc k" by (cases "bitlen (n div 2)") auto
    from ih k have "2 * 2 ^ k \<le> 2 * (n div 2)" by simp
    also have "\<dots> \<le> n" by simp
    finally have l: "2 ^ (bitlen n - 1) \<le> n" using b k by simp
    from ih have "n div 2 + 1 \<le> 2 ^ bitlen (n div 2)" by simp
    then have "2 * (n div 2) + 2 \<le> 2 * 2 ^ bitlen (n div 2)" by simp
    moreover have "n < 2 * (n div 2) + 2" by presburger
    ultimately have "n < 2 ^ bitlen n" using b by simp
    with l show ?thesis by simp
  next
    case False
    then have n1: "n = 1" using 1(2) by presburger
    have "bitlen (1::int) = 1" by (simp add: bitlen.simps)
    then show ?thesis using n1 by simp
  qed
qed

lemma roundNat_small: "n < 2 ^ 53 \<Longrightarrow> roundNat n = Some n"
  by (simp add: roundNat_def)

lemma roundNat_large:
  assumes "n \<ge> 2 ^ 53"
  shows "roundNat n = None \<or> (\<exists>v. roundNat n = Some v \<and> v \<ge> 2 ^ 53)"
proof -
  have npos: "n > 0" using assms by (smt (verit) zero_less_power)
  define e where "e = bitlen n - 53"
  have bl: "2 ^ (bitlen n - 1) \<le> n" "n < 2 ^ bitlen n" using bitlen_bounds [OF npos] by auto
  have "bitlen n > 53"
  proof (rule ccontr)
    assume "\<not> bitlen n > 53"
    then have "bitlen n \<le> 53" by simp
    then have "(2::int) ^ bitlen n \<le> 2 ^ 53" by (intro power_increasing) auto
    with bl(2) assms show False by linarith
  qed
  then have e1: "e \<ge> 1" and be: "bitlen n - 1 = 52 + e" by (auto simp: e_def)
  have "(2::int) ^ 52 * 2 ^ e \<le> n" using bl(1) be by (simp add: power_add)
  then have q52: "n div 2 ^ e \<ge> 2 ^ 52"
    by (smt (verit, best) div_pos_geq mult.commute nonzero_mult_div_cancel_left zdiv_mono1 zero_less_power)
  have p2: "(2::int) ^ e \<ge> 2" using e1 by (metis power_increasing power_one_right one_le_numeral)
  { fix q' :: int assume "q' \<ge> n div 2 ^ e"
    then have "q' \<ge> 2 ^ 52" using q52 by linarith
    then have "q' * 2 ^ e \<ge> 2 ^ 52 * 2" using p2 by (meson mult_mono zero_le_numeral zero_le_power order_trans)
    then have "q' * 2 ^ e \<ge> 2 ^ 53" by simp }
  note key = this
  show ?thesis using assms key [of "n div 2 ^ e"] key [of "n div 2 ^ e + 1"]
    by (auto simp: roundNat_def Let_def e_def [symmetric])
qed

lemma toDouble_exact: "\<bar>n\<bar> < 2 ^ 53 \<Longrightarrow> toDouble n = Num n"
  by (auto simp: toDouble_def roundNat_small)

lemma toDouble_big:
  assumes "n \<ge> 2 ^ 53"
  shows "toDouble n = PosInf \<or> (\<exists>v. toDouble n = Num v \<and> v \<ge> 2 ^ 53)"
  using roundNat_large [OF assms] assms by (auto simp: toDouble_def)

section \<open>Facts about the matcher\<close>

lemma rep_all_first:
  "\<forall>c\<in>set s. inRanges rs c \<Longrightarrow> m \<le> length s \<Longrightarrow> \<exists>p' rest. rep rs m None p s = (p', []) # rest"
proof (induction s arbitrary: m p)
  case Nil
  then show ?case by simp
next
  case (Cons c t)
  have "m - 1 \<le> length t" using Cons.prems(2) by simp
  moreover have "\<forall>c\<in>set t. inRanges rs c" using Cons.prems(1) by simp
  ultimately obtain p' rest where "rep rs (m - 1) None (Some c) t = (p', []) # rest"
    using Cons.IH by blast
  then show ?case using Cons.prems(1) by simp
qed

lemma allDigits_test:
  assumes "s \<noteq> []" and "\<forall>c\<in>set s. inRanges digit c"
  shows "rxTest (seq [Rep digit 1 None, Eos]) s"
proof -
  have "1 \<le> length s" using assms(1) by (cases s) auto
  then obtain p' rest where "rep digit 1 None None s = (p', []) # rest"
    using rep_all_first [OF assms(2)] by blast
  then show ?thesis by (simp add: rxTest_def rxMatch_def seq_def)
qed

lemma inRanges_chI:
  "inRanges [(lowerChar x, lowerChar x), (upperChar x, upperChar x)] c = (lowerChar c = lowerChar x)"
  by (auto simp: lowerChar_def upperChar_def)

lemma rmatch_chI:
  "rmatch (chI x) (cp, p, s) =
     (case s of [] \<Rightarrow> [] | c # t \<Rightarrow> if lowerChar c = lowerChar x then [(cp, Some c, t)] else [])"
  by (cases s) (simp_all only: chI_def rmatch.simps inRanges_chI list.case)

lemma rmatch_litI:
  "rmatch (foldr Cat (map chI w) Eps) (cp, p, s) =
     (if length w \<le> length s \<and> map lowerChar (take (length w) s) = map lowerChar w
      then [(cp, if w = [] then p else Some (last (take (length w) s)), drop (length w) s)]
      else [])"
proof (induction w arbitrary: p s)
  case Nil
  then show ?case by simp
next
  case (Cons x w)
  show ?case
  proof (cases s)
    case Nil
    then show ?thesis by (simp add: rmatch_chI)
  next
    case (Cons c t)
    then show ?thesis using Cons.IH [of "Some c" t]
      by (cases w) (auto simp: rmatch_chI)
  qed
qed

section \<open>The numeric epoch parser\<close>

lemma newDate_small: "0 \<le> v \<Longrightarrow> v \<le> 8640000000000000 \<Longrightarrow> newDate (Num v) = Num v"
  by (simp add: newDate_def timeClip_def)

lemma foldl_digits_nonneg:
  "\<forall>c\<in>set s. inRanges digit c \<Longrightarrow> 0 \<le> a \<Longrightarrow> 0 \<le> foldl (\<lambda>a c. 10 * a + (int c - 48)) a s"
  by (induction s arbitrary: a) (auto simp: digit_def)

lemma bigIntOfDigits_nonneg: "\<forall>c\<in>set s. inRanges digit c \<Longrightarrow> 0 \<le> bigIntOfDigits s"
  by (simp add: bigIntOfDigits_def foldl_digits_nonneg)

lemma specEpochMilliseconds_nonneg:
  "\<forall>c\<in>set s. inRanges digit c \<Longrightarrow> 0 \<le> specEpochMilliseconds s"
  using bigIntOfDigits_nonneg [of s] by (auto simp: specEpochMilliseconds_def pos_imp_zdiv_nonneg_iff)

text \<open>
  The rounding of \<open>Number(bigint)\<close> does not change the outcome: below \<open>2 ^ 53\<close> it is
  exact, and from there on both the exact and the rounded value exceed the largest date.
\<close>

lemma toDouble_cases:
  assumes "0 \<le> v"
  shows "(case toDouble v of
            Num w \<Rightarrow> if w < 0 \<or> \<bar>w\<bar> > maxDateMilliseconds then Inr None
                     else Inr (Some (newDate (Num w)))
          | _ \<Rightarrow> Inr None)
         = (if v > maxDateMilliseconds then Inr None else Inr (Some (Num v)) :: exn + Date option)"
proof (cases "v < 2 ^ 53")
  case True
  then have "toDouble v = Num v" using assms by (intro toDouble_exact) simp
  then show ?thesis using assms by (auto simp: maxDateMilliseconds_def newDate_small)
next
  case False
  then have big: "v \<ge> 2 ^ 53" by simp
  then have vm: "v > maxDateMilliseconds" by (simp add: maxDateMilliseconds_def)
  from toDouble_big [OF big] show ?thesis
  proof
    assume "toDouble v = PosInf" then show ?thesis using vm by simp
  next
    assume "\<exists>w. toDouble v = Num w \<and> w \<ge> 2 ^ 53"
    then obtain w where w: "toDouble v = Num w" "w \<ge> 2 ^ 53" by blast
    then have "\<bar>w\<bar> > maxDateMilliseconds" by (simp add: maxDateMilliseconds_def)
    then show ?thesis using vm w by simp
  qed
qed

text \<open>
  C1: for a non-empty string of digits that is not one of the absolute forms (14, 8 or 4
  digits starting with 2), \<open>parseNumeric\<close> returns the millisecond count that the digit
  count selects (nanoseconds above 16 digits, microseconds above 13, milliseconds above
  10, seconds otherwise) as the instant, and declines when that count is above 8.64e15;
  the count is never negative.
\<close>

theorem parseNumeric_epoch:
  assumes nonempty: "s \<noteq> []"
    and digits: "\<forall>c\<in>set s. inRanges digit c"
    and notSpecial: "\<not> ((length s = 14 \<or> length s = 8 \<or> length s = 4) \<and> startsWith s (js ''2''))"
  shows "parseNumeric e s z =
           (if specEpochMilliseconds s > maxDateMilliseconds then Inr None
            else Inr (Some (Num (specEpochMilliseconds s))))
         \<and> 0 \<le> specEpochMilliseconds s"
proof -
  have t: "rxTest (seq [Rep digit 1 None, Eos]) s" using allDigits_test [OF nonempty digits] .
  have nn: "0 \<le> specEpochMilliseconds s" using specEpochMilliseconds_nonneg [OF digits] .
  have "parseNumeric e s z =
          (case toDouble (specEpochMilliseconds s) of
             Num w \<Rightarrow> if w < 0 \<or> \<bar>w\<bar> > maxDateMilliseconds then Inr None
                      else Inr (Some (newDate (Num w)))
           | _ \<Rightarrow> Inr None)"
    using t notSpecial by (auto simp: parseNumeric_def specEpochMilliseconds_def Let_def)
  then show ?thesis using toDouble_cases [OF nn] nn by simp
qed

theorem parseNumeric_epoch_witness:
  "\<forall>e z. parseNumeric e (js ''1548854618'') z = Inr (Some (Num 1548854618000))
       \<and> parseNumeric e (js ''1548854618000'') z = Inr (Some (Num 1548854618000))
       \<and> parseNumeric e (js ''1548854618000000'') z = Inr (Some (Num 1548854618000))
       \<and> parseNumeric e (js ''1548854618000000000'') z = Inr (Some (Num 1548854618000))
       \<and> parseNumeric e (js ''8640000000000001'') z = Inr (Some (Num 8640000000000))
       \<and> parseNumeric e (js ''8640000000001'') z = Inr (Some (Num 8640000000001))
       \<and> parseNumeric e (js ''9999999999999999999999'') z = Inr None"
proof (intro allI conjI)
  fix e z
  note ev = js_def digit_def startsWith_def specEpochMilliseconds_def bigIntOfDigits_def
    maxDateMilliseconds_def
  show "parseNumeric e (js ''1548854618'') z = Inr (Some (Num 1548854618000))"
    using parseNumeric_epoch [of "js ''1548854618''" e z] by (simp add: ev cong: let_weak_cong)
  show "parseNumeric e (js ''1548854618000'') z = Inr (Some (Num 1548854618000))"
    using parseNumeric_epoch [of "js ''1548854618000''" e z] by (simp add: ev cong: let_weak_cong)
  show "parseNumeric e (js ''1548854618000000'') z = Inr (Some (Num 1548854618000))"
    using parseNumeric_epoch [of "js ''1548854618000000''" e z] by (simp add: ev cong: let_weak_cong)
  show "parseNumeric e (js ''1548854618000000000'') z = Inr (Some (Num 1548854618000))"
    using parseNumeric_epoch [of "js ''1548854618000000000''" e z] by (simp add: ev cong: let_weak_cong)
  show "parseNumeric e (js ''8640000000000001'') z = Inr (Some (Num 8640000000000))"
    using parseNumeric_epoch [of "js ''8640000000000001''" e z] by (simp add: ev cong: let_weak_cong)
  show "parseNumeric e (js ''8640000000001'') z = Inr (Some (Num 8640000000001))"
    using parseNumeric_epoch [of "js ''8640000000001''" e z] by (simp add: ev cong: let_weak_cong)
  show "parseNumeric e (js ''9999999999999999999999'') z = Inr None"
    using parseNumeric_epoch [of "js ''9999999999999999999999''" e z] by (simp add: ev cong: let_weak_cong)
qed

section \<open>The meridiem\<close>

text \<open>
  The cases of \<open>applyMeridiem\<close>, and \<open>parseComponentsWithMeridiem\<close> in terms of it. The
  parsers that take a meridiem are treated in the section on the meridiem in the parsers.
\<close>

lemma applyMeridiem_cases:
  "applyMeridiem h None = Some h
   \<and> (toUpperCase m = js ''AM'' \<or> toUpperCase m = js ''PM'' \<longrightarrow>
        (h < 1 \<or> h > 12 \<longrightarrow>
           applyMeridiem h (Some m) = None
           \<and> parseComponentsWithMeridiem e y mo d h mi s ms z (Some m) = Inr None)
        \<and> (1 \<le> h \<and> h \<le> 11 \<and> toUpperCase m = js ''AM'' \<longrightarrow> applyMeridiem h (Some m) = Some h)
        \<and> (1 \<le> h \<and> h \<le> 11 \<and> toUpperCase m = js ''PM'' \<longrightarrow> applyMeridiem h (Some m) = Some (h + 12))
        \<and> (toUpperCase m = js ''AM'' \<longrightarrow> applyMeridiem 12 (Some m) = Some 0)
        \<and> (toUpperCase m = js ''PM'' \<longrightarrow> applyMeridiem 12 (Some m) = Some 12))
   \<and> parseComponentsWithMeridiem e y mo d h mi s ms z mer =
       (case applyMeridiem h mer of
          None \<Rightarrow> Inr None
        | Some h' \<Rightarrow>
            buildDateFromComponents e
              \<lparr>cyear = y, cmonth = mo, cday = d, chour = Some h', cminute = Some mi,
               csecond = Some s, cmillisecond = Some ms\<rparr> z)"
proof -
  have ne: "toUpperCase m = js ''AM'' \<or> toUpperCase m = js ''PM'' \<Longrightarrow> m \<noteq> []"
    by (auto simp: toUpperCase_def js_def)
  have neq: "js ''AM'' \<noteq> js ''PM''" by (simp add: js_def)
  show ?thesis
    using ne neq by (auto simp: applyMeridiem_def parseComponentsWithMeridiem_def)
qed

section \<open>The zone suffix\<close>

lemma lastIndexOf_none: "c \<notin> set s \<Longrightarrow> lastIndexOf s c = - 1"
  by (simp add: lastIndexOf_def)

lemma lastIndexOf_split: "c \<notin> set r \<Longrightarrow> lastIndexOf (l @ c # r) c = int (length l)"
proof -
  assume a: "c \<notin> set r"
  have "takeWhile (\<lambda>x. x \<noteq> c) (rev r @ c # rev l) = rev r"
    using a by (subst takeWhile_append2) auto
  then show ?thesis by (simp add: lastIndexOf_def)
qed

text \<open>
  C4: with \<open>t\<close> the trimmed input: when \<open>t\<close> has no comma, or its only comma is its
  first character, the result is \<open>t\<close> with the default zone. When \<open>t\<close> is \<open>l , r\<close> with
  no comma in \<open>r\<close> and \<open>l\<close> not empty, and the trimmed \<open>r\<close> resolves as a zone, the result
  is the trimmed \<open>l\<close> with that zone; when it does not resolve, the result is the whole
  of \<open>t\<close>, comma included, with the default zone.
\<close>

theorem splitInputAndZone_cases:
  "(44 \<notin> set (trim raw) \<longrightarrow> splitInputAndZone e raw dz = (trim raw, dz))
   \<and> (\<forall>r. trim raw = 44 # r \<and> 44 \<notin> set r \<longrightarrow> splitInputAndZone e raw dz = (trim raw, dz))
   \<and> (\<forall>l r. trim raw = l @ 44 # r \<and> 44 \<notin> set r \<and> l \<noteq> [] \<longrightarrow>
         (\<forall>zone. parseZone e (Some (trim r)) = Some zone \<longrightarrow>
                 splitInputAndZone e raw dz = (trim l, zone))
         \<and> (parseZone e (Some (trim r)) = None \<longrightarrow>
              splitInputAndZone e raw dz = (trim raw, dz)))"
proof (intro conjI allI impI)
  assume "44 \<notin> set (trim raw)"
  then show "splitInputAndZone e raw dz = (trim raw, dz)"
    by (simp add: splitInputAndZone_def lastIndexOf_none)
next
  fix r assume "trim raw = 44 # r \<and> 44 \<notin> set r"
  then have "lastIndexOf (trim raw) 44 = 0" using lastIndexOf_split [of 44 r "[]"] by simp
  then show "splitInputAndZone e raw dz = (trim raw, dz)"
    by (simp add: splitInputAndZone_def)
next
  fix l r zone
  assume a: "trim raw = l @ 44 # r \<and> 44 \<notin> set r \<and> l \<noteq> []"
    and z: "parseZone e (Some (trim r)) = Some zone"
  then have i: "lastIndexOf (trim raw) 44 = int (length l)"
    using lastIndexOf_split [of 44 r l] by simp
  have "length l > 0" using a by simp
  then show "splitInputAndZone e raw dz = (trim l, zone)"
    using a z i by (simp add: splitInputAndZone_def Let_def nat_add_distrib)
next
  fix l r
  assume a: "trim raw = l @ 44 # r \<and> 44 \<notin> set r \<and> l \<noteq> []"
    and z: "parseZone e (Some (trim r)) = None"
  then have i: "lastIndexOf (trim raw) 44 = int (length l)"
    using lastIndexOf_split [of 44 r l] by simp
  have "length l > 0" using a by simp
  then show "splitInputAndZone e raw dz = (trim raw, dz)"
    using a z i by (simp add: splitInputAndZone_def Let_def nat_add_distrib)
qed

theorem splitInputAndZone_cases_witness:
  "(\<forall>e dz. splitInputAndZone e (js ''  1548854618 '') dz = (js ''1548854618'', dz))
   \<and> (\<forall>e dz. splitInputAndZone e (js '',utc'') dz = (js '',utc'', dz))
   \<and> (\<forall>e dz. splitInputAndZone e (js ''2019-01-30 21:24:44 , gmt-7 '') dz
         = (js ''2019-01-30 21:24:44'', Fixed (- 420) (js ''UTC-07:00'')))
   \<and> (\<forall>dz. splitInputAndZone utcEnv (js ''May 8, 2009 5:57:51 PM'') dz
         = (js ''May 8, 2009 5:57:51 PM'', dz))"
proof (intro conjI allI)
  fix e dz
  note tr = js_def trim_def space_def
  show "splitInputAndZone e (js ''  1548854618 '') dz = (js ''1548854618'', dz)"
    using splitInputAndZone_cases [of "js ''  1548854618 ''" e dz] by (simp add: tr)
  show "splitInputAndZone e (js '',utc'') dz = (js '',utc'', dz)"
    using splitInputAndZone_cases [of "js '',utc''" e dz] by (simp add: tr)
  have z: "parseZone e (Some (trim (js '' gmt-7''))) = Some (Fixed (- 420) (js ''UTC-07:00''))"
    by (simp add: ev cong: let_weak_cong)
  have t: "trim (js ''2019-01-30 21:24:44 , gmt-7 '') = js ''2019-01-30 21:24:44 '' @ 44 # js '' gmt-7''
           \<and> 44 \<notin> set (js '' gmt-7'') \<and> js ''2019-01-30 21:24:44 '' \<noteq> []"
    by (simp add: tr)
  have tl: "trim (js ''2019-01-30 21:24:44 '') = js ''2019-01-30 21:24:44''"
    by (simp add: tr)
  note c3 = splitInputAndZone_cases [of "js ''2019-01-30 21:24:44 , gmt-7 ''" e dz,
      THEN conjunct2, THEN conjunct2, rule_format, OF t, THEN conjunct1, rule_format, OF z]
  show "splitInputAndZone e (js ''2019-01-30 21:24:44 , gmt-7 '') dz
         = (js ''2019-01-30 21:24:44'', Fixed (- 420) (js ''UTC-07:00''))"
    using c3 tl by simp
next
  fix dz
  note tr = js_def trim_def space_def
  have z: "parseZone utcEnv (Some (trim (js '' 2009 5:57:51 PM''))) = None"
    by (simp add: ev utcEnv_simps cong: let_weak_cong)
  have t: "trim (js ''May 8, 2009 5:57:51 PM'') = js ''May 8'' @ 44 # js '' 2009 5:57:51 PM''
           \<and> 44 \<notin> set (js '' 2009 5:57:51 PM'') \<and> js ''May 8'' \<noteq> []"
    by (simp add: tr)
  note c4 = splitInputAndZone_cases [of "js ''May 8, 2009 5:57:51 PM''" utcEnv dz,
      THEN conjunct2, THEN conjunct2, rule_format, OF t, THEN conjunct2, rule_format, OF z]
  show "splitInputAndZone utcEnv (js ''May 8, 2009 5:57:51 PM'') dz
          = (js ''May 8, 2009 5:57:51 PM'', dz)"
    using c4 by (simp add: tr)
qed

section \<open>The Etc/GMT zones\<close>

lemma trim_id:
  assumes "s \<noteq> []" "\<not> inRanges space (hd s)" "\<not> inRanges space (last s)"
  shows "trim s = s"
proof -
  have a: "dropWhile (inRanges space) s = s" using assms(1,2) by (cases s) auto
  obtain x xs where r: "rev s = x # xs" using assms(1) by (cases "rev s") auto
  then have "last s = x" by (metis last_rev list.sel(1) rev_rev_ident)
  then have b: "dropWhile (inRanges space) (rev s) = rev s" using assms(3) r by simp
  show ?thesis by (simp add: trim_def a b)
qed

lemma etc_match:
  assumes p: "toLowerCase p = js ''etc/gmt''"
    and sg: "sg = 43 \<or> sg = 45"
    and ds: "ds = [d1] \<or> ds = [d1, d2]" "inRanges digit d1" "inRanges digit d2"
  shows "rxMatch etcPattern (p @ sg # ds) = Some [1 \<mapsto> [sg], 2 \<mapsto> ds]"
proof -
  have l: "length p = 7" using arg_cong [OF p, of length] by (simp add: toLowerCase_def js_def)
  have w: "map lowerChar (map of_char ''Etc/GMT'') = js ''etc/gmt''"
    by (simp add: js_def lowerChar_def)
  have "rmatch (foldr Cat (map chI (map of_char ''Etc/GMT'')) Eps) (Map.empty, None, p @ sg # ds)
        = [(Map.empty, Some (last p), sg # ds)]"
    using p l by (subst rmatch_litI) (auto simp: w toLowerCase_def js_def lowerChar_def)
  then show ?thesis
    using sg ds
    by (auto simp: etcPattern_def rxMatch_def seq_def litI_def js_def oneOf_def)
qed

lemma digits_shape:
  assumes "length ds = 1 \<or> length ds = 2" "\<forall>c\<in>set ds. inRanges digit c"
  shows "\<exists>d1 d2. (ds = [d1] \<or> ds = [d1, d2]) \<and> inRanges digit d1 \<and> inRanges digit d2"
proof -
  from assms(1) consider "length ds = 1" | "length ds = 2" by blast
  then show ?thesis
  proof cases
    case 1
    then obtain d1 where "ds = [d1]" by (cases ds) auto
    then show ?thesis using assms(2) by auto
  next
    case 2
    then obtain d1 d2 where "ds = [d1, d2]" by (cases ds; cases "tl ds") auto
    then show ?thesis using assms(2) by auto
  qed
qed

text \<open>
  C2: a specifier that is \<open>Etc/GMT\<close> in any letter case, a sign and one or two digits
  resolves, when the hours are at most 23, to the Fixed zone of hours times 60 minutes
  with the sign reversed (a plus gives a negative offset). With hours above 23
  \<open>parseFixedOffset\<close> declines, and \<open>parseZone\<close> gives no Fixed zone: it fails unless the
  zone database of the environment accepts the specifier as a zone name of its own.
\<close>

theorem etcGmt_reversed:
  assumes p: "toLowerCase p = js ''etc/gmt''"
    and sg: "sg = 43 \<or> sg = 45"
    and len: "length ds = 1 \<or> length ds = 2"
    and dig: "\<forall>c\<in>set ds. inRanges digit c"
  shows "(digitsToInt ds \<le> 23 \<longrightarrow>
           parseZone e (Some (p @ sg # ds)) =
             Some (Fixed ((if sg = 43 then - 1 else 1) * digitsToInt ds * 60)
                    (js ''UTC'' @ formatOffset (Num ((if sg = 43 then - 1 else 1) * digitsToInt ds * 60)))))
         \<and> (digitsToInt ds > 23 \<longrightarrow>
           parseFixedOffset (p @ sg # ds) = None
           \<and> parseZone e (Some (p @ sg # ds)) =
               (if validTimeZone e (p @ sg # ds) then Some (Iana (p @ sg # ds) None) else None))"
proof -
  obtain d1 d2 where ds: "ds = [d1] \<or> ds = [d1, d2]" "inRanges digit d1" "inRanges digit d2"
    using digits_shape [OF len dig] by blast
  let ?v = "p @ sg # ds"
  have l: "length p = 7" using arg_cong [OF p, of length] by (simp add: toLowerCase_def js_def)
  then obtain c0 p' where pc: "p = c0 # p'" by (cases p) auto
  have c0: "lowerChar c0 = 101" using p pc by (simp add: toLowerCase_def js_def)
  have nsp0: "\<not> inRanges space c0"
    using c0 by (auto simp: space_def lowerChar_def split: if_splits)
  have lastd: "inRanges digit (last ?v)" using ds by auto
  have nspl: "\<not> inRanges space (last ?v)" using lastd by (auto simp: space_def digit_def)
  have tr: "trim ?v = ?v" using nsp0 nspl pc by (intro trim_id) auto
  have m: "rxMatch etcPattern ?v = Some [1 \<mapsto> [sg], 2 \<mapsto> ds]"
    using etc_match [OF p sg ds] .
  have nl: "\<not> rxTest (seq [litI ''local'', Eos]) ?v"
    using c0 pc by (simp add: rxTest_def rxMatch_def seq_def litI_def rmatch_chI js_def lowerChar_def)
  have nu: "\<not> rxTest (seq [Alt (litI ''utc'') (Alt (litI ''gmt'') (litI ''z'')), Eos]) ?v"
    using c0 pc by (simp add: rxTest_def rxMatch_def seq_def litI_def rmatch_chI js_def lowerChar_def)
  have f: "parseFixedOffset ?v =
           (if digitsToInt ds > 23 then None
            else Some (Fixed ((if sg = 43 then - 1 else 1) * digitsToInt ds * 60)
                   (js ''UTC'' @ formatOffset (Num ((if sg = 43 then - 1 else 1) * digitsToInt ds * 60)))))"
    using sg by (auto simp: parseFixedOffset_def m grp_def js_def minutesInHour_def Let_def)
  show ?thesis
    using tr nl nu f pc by (auto simp: parseZone_def Let_def isValidIanaTimeZone_def)
qed

theorem etcGmt_reversed_witness:
  "(\<forall>e. parseZone e (Some (js ''Etc/GMT+7'')) = Some (Fixed (- 420) (js ''UTC-07:00'')))
   \<and> (\<forall>e. parseZone e (Some (js ''Etc/GMT-5'')) = Some (Fixed 300 (js ''UTC+05:00'')))
   \<and> (\<forall>e. parseZone e (Some (js ''etc/gmt+23'')) = Some (Fixed (- 1380) (js ''UTC-23:00'')))
   \<and> parseFixedOffset (js ''Etc/GMT+24'') = None
   \<and> parseZone utcEnv (Some (js ''Etc/GMT+24'')) = None"
proof (intro conjI allI)
  note c = js_def toLowerCase_def lowerChar_def digit_def digitsToInt_def
  note f = formatOffset_def pad_def padStart_def numToString_def intToString_def natDigits_lt10
    natDigits_ge10 minutesInHour_def Let_def
  show "parseZone e (Some (js ''Etc/GMT+7'')) = Some (Fixed (- 420) (js ''UTC-07:00''))" for e
    using etcGmt_reversed [of "js ''Etc/GMT''" 43 "js ''7''" e] by (simp add: c f)
  show "parseZone e (Some (js ''Etc/GMT-5'')) = Some (Fixed 300 (js ''UTC+05:00''))" for e
    using etcGmt_reversed [of "js ''Etc/GMT''" 45 "js ''5''" e] by (simp add: c f)
  show "parseZone e (Some (js ''etc/gmt+23'')) = Some (Fixed (- 1380) (js ''UTC-23:00''))" for e
    using etcGmt_reversed [of "js ''etc/gmt''" 43 "js ''23''" e] by (simp add: c f)
  show "parseFixedOffset (js ''Etc/GMT+24'') = None"
    using etcGmt_reversed [of "js ''Etc/GMT''" 43 "js ''24''" utcEnv] by (simp add: c f)
  show "parseZone utcEnv (Some (js ''Etc/GMT+24'')) = None"
    using etcGmt_reversed [of "js ''Etc/GMT''" 43 "js ''24''" utcEnv] by (simp add: c f utcEnv_simps)
qed

section \<open>Instants of a fixed zone\<close>

lemma roundNat_lower:
  assumes "n \<ge> 2 ^ k" "k \<ge> 53"
  shows "roundNat n = None \<or> (\<exists>v. roundNat n = Some v \<and> v \<ge> 2 ^ k)"
proof -
  have npos: "n > 0" using assms by (smt (verit) zero_less_power)
  have n53: "n \<ge> 2 ^ 53"
  proof -
    have "(2::int) ^ 53 \<le> 2 ^ k" using assms(2) by (intro power_increasing) auto
    then show ?thesis using assms(1) by linarith
  qed
  define e where "e = bitlen n - 53"
  have bl: "2 ^ (bitlen n - 1) \<le> n" "n < 2 ^ bitlen n" using bitlen_bounds [OF npos] by auto
  have bk: "bitlen n > k"
  proof (rule ccontr)
    assume "\<not> bitlen n > k"
    then have "bitlen n \<le> k" by simp
    then have "(2::int) ^ bitlen n \<le> 2 ^ k" by (intro power_increasing) auto
    with bl(2) assms show False by linarith
  qed
  then have be: "bitlen n - 1 = 52 + e" and ek: "52 + e \<ge> k" using assms(2) by (auto simp: e_def)
  have "(2::int) ^ 52 * 2 ^ e \<le> n" using bl(1) be by (simp add: power_add)
  then have q52: "n div 2 ^ e \<ge> 2 ^ 52"
    by (smt (verit, best) div_pos_geq mult.commute nonzero_mult_div_cancel_left zdiv_mono1 zero_less_power)
  have pk: "(2::int) ^ 52 * 2 ^ e \<ge> 2 ^ k"
    using ek by (metis power_add power_increasing one_le_numeral)
  { fix q' :: int assume "q' \<ge> n div 2 ^ e"
    then have "q' \<ge> 2 ^ 52" using q52 by linarith
    then have "q' * 2 ^ e \<ge> 2 ^ 52 * 2 ^ e" by (simp add: mult_right_mono)
    then have "q' * 2 ^ e \<ge> 2 ^ k" using pk by linarith }
  note key = this
  show ?thesis using n53 key [of "n div 2 ^ e"] key [of "n div 2 ^ e + 1"]
    by (auto simp: roundNat_def Let_def e_def [symmetric])
qed

lemma bitlen_54:
  assumes "2 ^ 53 \<le> n" "n < 2 ^ 54"
  shows "bitlen n = 54"
proof -
  have npos: "n > 0" using assms by (smt (verit) zero_less_power)
  have bl: "2 ^ (bitlen n - 1) \<le> n" "n < 2 ^ bitlen n" using bitlen_bounds [OF npos] by auto
  have "\<not> bitlen n \<le> 53"
  proof
    assume "bitlen n \<le> 53"
    then have "(2::int) ^ bitlen n \<le> 2 ^ 53" by (intro power_increasing) auto
    with bl(2) assms show False by linarith
  qed
  moreover have "\<not> bitlen n \<ge> 55"
  proof
    assume "bitlen n \<ge> 55"
    then have "(2::int) ^ 54 \<le> 2 ^ (bitlen n - 1)" by (intro power_increasing) auto
    with bl(1) assms show False by linarith
  qed
  ultimately show ?thesis by linarith
qed

lemma roundNat_even:
  assumes "2 ^ 53 \<le> n" "n < 2 ^ 54" "even n"
  shows "roundNat n = Some n"
proof -
  have b: "bitlen n = 54" using bitlen_54 [OF assms(1,2)] .
  have "n mod 2 = 0" using assms(3) by presburger
  moreover have "n div 2 * 2 = n" using assms(3) by presburger
  ultimately show ?thesis using assms(1,2) by (simp add: roundNat_def b Let_def)
qed

lemma toDouble_neg: "n \<noteq> 0 \<Longrightarrow> toDouble (- n) = numNeg (toDouble n)"
  by (auto simp: toDouble_def split: option.splits)

lemma toDouble_lower:
  assumes "n \<ge> 2 ^ k" "k \<ge> 53"
  shows "toDouble n = PosInf \<or> (\<exists>v. toDouble n = Num v \<and> v \<ge> 2 ^ k)"
proof -
  have "n \<ge> 0" using assms(1) by (smt (verit) zero_less_power)
  then show ?thesis using roundNat_lower [OF assms] by (auto simp: toDouble_def)
qed

lemma toDouble_abs_lower:
  assumes "\<bar>n\<bar> \<ge> 2 ^ k" "k \<ge> 53"
  shows "toDouble n = PosInf \<or> toDouble n = NegInf \<or> (\<exists>v. toDouble n = Num v \<and> \<bar>v\<bar> \<ge> 2 ^ k)"
proof (cases "n \<ge> 0")
  case True
  then show ?thesis using toDouble_lower [of k n] assms by auto
next
  case False
  then have "- n \<ge> 2 ^ k" "n \<noteq> 0" using assms by auto
  then have "toDouble (- n) = PosInf \<or> (\<exists>v. toDouble (- n) = Num v \<and> v \<ge> 2 ^ k)"
    using toDouble_lower [of k "- n"] assms(2) by blast
  moreover have "toDouble n = numNeg (toDouble (- n))" using toDouble_neg [of "- n"] \<open>n \<noteq> 0\<close> by simp
  ultimately show ?thesis by auto
qed

lemma toDouble_even:
  assumes "\<bar>n\<bar> < 2 ^ 54" "even n"
  shows "toDouble n = Num n"
proof (cases "\<bar>n\<bar> < 2 ^ 53")
  case True
  then show ?thesis by (rule toDouble_exact)
next
  case False
  show ?thesis
  proof (cases "n \<ge> 0")
    case True
    then show ?thesis using False assms roundNat_even [of n] by (simp add: toDouble_def)
  next
    case f: False
    then show ?thesis using False assms roundNat_even [of "- n"] by (simp add: toDouble_def)
  qed
qed

lemma timeClip_toDouble:
  "timeClip (toDouble n) = timeClip (Num n)"
proof (cases "\<bar>n\<bar> < 2 ^ 53")
  case True
  then show ?thesis by (simp add: toDouble_exact)
next
  case False
  then have "\<bar>n\<bar> \<ge> 2 ^ 53" by simp
  from toDouble_abs_lower [OF this] have "timeClip (toDouble n) = NaN"
    by (auto simp: timeClip_def)
  moreover have "timeClip (Num n) = NaN" using False by (simp add: timeClip_def)
  ultimately show ?thesis by simp
qed

lemma fixed_exact:
  assumes g: "\<bar>g\<bar> \<le> 8640000000000000"
  shows "newDate (numSub (Num g) (mulConst (Num off) millisecondsInMinute)) = timeClip (Num (g - off * 60000))"
proof -
  let ?P = "off * 60000"
  show ?thesis
  proof (cases "\<bar>?P\<bar> < 2 ^ 54")
    case True
    have "even ?P" by simp
    then have "toDouble ?P = Num ?P" using True by (intro toDouble_even) auto
    then show ?thesis
      by (simp add: newDate_def numSub_def millisecondsInMinute_def timeClip_toDouble)
  next
    case False
    then have big: "\<bar>?P\<bar> \<ge> 2 ^ 54" by simp
    have ex: "timeClip (Num (g - ?P)) = NaN" using big g by (simp add: timeClip_def)
    from toDouble_abs_lower [OF big]
    consider "toDouble ?P = PosInf" | "toDouble ?P = NegInf"
      | v where "toDouble ?P = Num v" "\<bar>v\<bar> \<ge> 2 ^ 54" by auto
    then have "newDate (numSub (Num g) (toDouble ?P)) = NaN"
    proof cases
      case 1 then show ?thesis by (simp add: newDate_def numSub_def timeClip_def)
    next
      case 2 then show ?thesis by (simp add: newDate_def numSub_def timeClip_def)
    next
      case 3
      have "timeClip (Num (g - v)) = NaN" using 3(2) g by (simp add: timeClip_def)
      then show ?thesis using 3(1) by (simp add: newDate_def numSub_def timeClip_toDouble)
    qed
    then show ?thesis using ex by (simp add: millisecondsInMinute_def)
  qed
qed

lemma dateUTC_range: "dateUTC y mo d h mi s ms = Num g \<Longrightarrow> \<bar>g\<bar> \<le> 8640000000000000"
  by (auto simp: dateUTC_def timeClip_def Let_def split: if_splits)

lemma dateUTC_shape: "dateUTC y mo d h mi s ms = NaN \<or> (\<exists>g. dateUTC y mo d h mi s ms = Num g)"
  by (auto simp: dateUTC_def timeClip_def Let_def)

text \<open>
  C6: for every components value and every Fixed zone, with any offset,
  \<open>toInstantFromComponents\<close> returns the time value of \<open>Date.UTC\<close> on the components
  minus the offset times 60000, clipped to the range of dates (NaN when \<open>Date.UTC\<close> is
  NaN); the roundings of the host's arithmetic do not show. The input
  \<open>2019-01-30 21:24:44,gmt-7\<close> is parsed by the dash parser against the Fixed zone of
  -420 minutes to the instant 1548908684000, which is 2019-01-31T04:24:44 in UTC.
\<close>

theorem toInstant_fixed:
  "toInstantFromComponents e c (Fixed off lbl) =
     Inr (case dateUTC (cyear c) (cmonth c - 1) (cday c) (orZero (chour c)) (orZero (cminute c))
                 (orZero (csecond c)) (orZero (cmillisecond c)) of
            Num g \<Rightarrow> timeClip (Num (g - off * 60000))
          | _ \<Rightarrow> NaN)
   \<and> parseDateInput e (js ''2019-01-30 21:24:44,gmt-7'') dz =
       Inr (ParseSuccess (js ''2019-01-30 21:24:44'') (Fixed (- 420) (js ''UTC-07:00''))
              (js ''UTC-07:00'') (Num 1548908684000) (js ''dash''))
   \<and> dateUTC 2019 0 31 4 24 44 0 = Num 1548908684000
   \<and> formatInstantForZone e (Num 1548908684000) (Fixed 0 (js ''UTC''))
       = Inr (js ''2019-01-31T04:24:44 +00:00 UTC'')"
proof (intro conjI)
  let ?u = "dateUTC (cyear c) (cmonth c - 1) (cday c) (orZero (chour c)) (orZero (cminute c))
                 (orZero (csecond c)) (orZero (cmillisecond c))"
  from dateUTC_shape [of "cyear c" "cmonth c - 1" "cday c" "orZero (chour c)" "orZero (cminute c)"
      "orZero (csecond c)" "orZero (cmillisecond c)"]
  show "toInstantFromComponents e c (Fixed off lbl) =
     Inr (case ?u of Num g \<Rightarrow> timeClip (Num (g - off * 60000)) | _ \<Rightarrow> NaN)"
  proof
    assume n: "?u = NaN"
    have "newDate (numSub NaN x) = NaN" for x by (simp add: newDate_def numSub_def timeClip_def)
    then show ?thesis using n by (simp add: toInstantFromComponents_def Let_def)
  next
    assume "\<exists>g. ?u = Num g"
    then obtain g where g: "?u = Num g" by blast
    then show ?thesis using fixed_exact [OF dateUTC_range [OF g]]
      by (simp add: toInstantFromComponents_def Let_def)
  qed
next
  show "parseDateInput e (js ''2019-01-30 21:24:44,gmt-7'') dz =
       Inr (ParseSuccess (js ''2019-01-30 21:24:44'') (Fixed (- 420) (js ''UTC-07:00''))
              (js ''UTC-07:00'') (Num 1548908684000) (js ''dash''))"
    by (simp add: ev cong: let_weak_cong)
next
  show "dateUTC 2019 0 31 4 24 44 0 = Num 1548908684000"
    by (simp add: ev cong: let_weak_cong)
next
  show "formatInstantForZone e (Num 1548908684000) (Fixed 0 (js ''UTC''))
       = Inr (js ''2019-01-31T04:24:44 +00:00 UTC'')"
    by (simp add: ev cong: let_weak_cong)
qed

section \<open>The slash dates\<close>

lemma parseSlashDate_of_match:
  assumes m: "rxMatch slashPattern input = Some m"
    and la: "length (grp m 1) \<le> 2" and lb: "length (grp m 2) \<le> 2" and lc: "length (grp m 3) \<le> 2"
  shows "parseSlashDate e input z =
           (case parseComponentsWithMeridiem e (expandTwoDigitYear (digitsToInt (grp m 1)))
                   (digitsToInt (grp m 2)) (digitsToInt (grp m 3))
                   (optDigits m 4) (optDigits m 5) (optDigits m 6)
                   (parseFractionMilliseconds (m 7)) z (m 8) of
              Inr None \<Rightarrow>
                parseComponentsWithMeridiem e (expandTwoDigitYear (digitsToInt (grp m 3)))
                   (digitsToInt (grp m 1)) (digitsToInt (grp m 2))
                   (optDigits m 4) (optDigits m 5) (optDigits m 6)
                   (parseFractionMilliseconds (m 7)) z (m 8)
            | r \<Rightarrow> r)"
proof -
  have att: "slashAttempts (grp m 1) (grp m 2) (grp m 3) =
        [(expandTwoDigitYear (digitsToInt (grp m 1)), digitsToInt (grp m 2), digitsToInt (grp m 3)),
         (expandTwoDigitYear (digitsToInt (grp m 3)), digitsToInt (grp m 1), digitsToInt (grp m 2))]"
    using la lb lc by (simp add: slashAttempts_def)
  show ?thesis
    using m att by (auto simp: parseSlashDate_def Let_def split: sum.splits option.splits)
qed

lemma invalid_date_declines:
  "\<not> isValidCalendarDate y mo d \<Longrightarrow> parseComponentsWithMeridiem e y mo d h mi s ms z mer = Inr None"
  by (auto simp: parseComponentsWithMeridiem_def buildDateFromComponents_def Let_def
      split: option.splits)

lemma slash_match_date:
  assumes a: "length a = 1 \<or> length a = 2" "\<forall>x\<in>set a. inRanges digit x"
    and b: "length b = 1 \<or> length b = 2" "\<forall>x\<in>set b. inRanges digit x"
    and c: "length c = 1 \<or> length c = 2" "\<forall>x\<in>set c. inRanges digit x"
  shows "rxMatch slashPattern (a @ 47 # b @ 47 # c) = Some [1 \<mapsto> a, 2 \<mapsto> b, 3 \<mapsto> c]"
proof -
  obtain a1 a2 where a': "a = [a1] \<or> a = [a1, a2]" "inRanges digit a1" "inRanges digit a2"
    using digits_shape [OF a] by blast
  obtain b1 b2 where b': "b = [b1] \<or> b = [b1, b2]" "inRanges digit b1" "inRanges digit b2"
    using digits_shape [OF b] by blast
  obtain c1 c2 where c': "c = [c1] \<or> c = [c1, c2]" "inRanges digit c1" "inRanges digit c2"
    using digits_shape [OF c] by blast
  have nd: "\<not> inRanges digit 47" by (simp add: digit_def)
  have ne: "\<And>x. inRanges digit x \<Longrightarrow> x \<noteq> 47" by (auto simp: digit_def)
  have ns: "\<And>x. inRanges digit x \<Longrightarrow> \<not> inRanges space x" by (auto simp: digit_def space_def)
  note r = rxMatch_def slashPattern_def seq_def ch_def oneOf_def js_def meridiemPattern_def
    litI_def chI_def
  from a'(1) b'(1) c'(1) show ?thesis
    using a'(2,3) b'(2,3) c'(2,3) nd ne ns
    by (elim disjE) (simp_all add: r)
qed

text \<open>
  C3: when the slash pattern matches and its three date groups \<open>A\<close>, \<open>B\<close>, \<open>C\<close> have at
  most two digits each, \<open>parseSlashDate\<close> is the first interpretation (year expanded
  from \<open>A\<close>, month \<open>B\<close>, day \<open>C\<close>) unless that one declines, and then the second (year
  expanded from \<open>C\<close>, month \<open>A\<close>, day \<open>B\<close>), both with the time fields and meridiem of the
  input; when the first is not a valid calendar date the result is the second. Every
  input \<open>A/B/C\<close> of digit groups of one or two digits matches with these groups.
\<close>

theorem parseSlashDate_ambiguous:
  "(rxMatch slashPattern input = Some m \<and> length (grp m 1) \<le> 2 \<and> length (grp m 2) \<le> 2
      \<and> length (grp m 3) \<le> 2 \<longrightarrow>
      parseSlashDate e input z =
        (case parseComponentsWithMeridiem e (expandTwoDigitYear (digitsToInt (grp m 1)))
                (digitsToInt (grp m 2)) (digitsToInt (grp m 3))
                (optDigits m 4) (optDigits m 5) (optDigits m 6)
                (parseFractionMilliseconds (m 7)) z (m 8) of
           Inr None \<Rightarrow>
             parseComponentsWithMeridiem e (expandTwoDigitYear (digitsToInt (grp m 3)))
                (digitsToInt (grp m 1)) (digitsToInt (grp m 2))
                (optDigits m 4) (optDigits m 5) (optDigits m 6)
                (parseFractionMilliseconds (m 7)) z (m 8)
         | r \<Rightarrow> r)
      \<and> (\<not> isValidCalendarDate (expandTwoDigitYear (digitsToInt (grp m 1)))
              (digitsToInt (grp m 2)) (digitsToInt (grp m 3)) \<longrightarrow>
           parseSlashDate e input z =
             parseComponentsWithMeridiem e (expandTwoDigitYear (digitsToInt (grp m 3)))
                (digitsToInt (grp m 1)) (digitsToInt (grp m 2))
                (optDigits m 4) (optDigits m 5) (optDigits m 6)
                (parseFractionMilliseconds (m 7)) z (m 8)))
   \<and> ((length a = 1 \<or> length a = 2) \<and> (\<forall>x\<in>set a. inRanges digit x)
      \<and> (length b = 1 \<or> length b = 2) \<and> (\<forall>x\<in>set b. inRanges digit x)
      \<and> (length c = 1 \<or> length c = 2) \<and> (\<forall>x\<in>set c. inRanges digit x) \<longrightarrow>
      rxMatch slashPattern (a @ 47 # b @ 47 # c) = Some [1 \<mapsto> a, 2 \<mapsto> b, 3 \<mapsto> c])"
proof (intro conjI impI)
  assume h: "rxMatch slashPattern input = Some m \<and> length (grp m 1) \<le> 2
      \<and> length (grp m 2) \<le> 2 \<and> length (grp m 3) \<le> 2"
  then show first: "parseSlashDate e input z =
        (case parseComponentsWithMeridiem e (expandTwoDigitYear (digitsToInt (grp m 1)))
                (digitsToInt (grp m 2)) (digitsToInt (grp m 3))
                (optDigits m 4) (optDigits m 5) (optDigits m 6)
                (parseFractionMilliseconds (m 7)) z (m 8) of
           Inr None \<Rightarrow>
             parseComponentsWithMeridiem e (expandTwoDigitYear (digitsToInt (grp m 3)))
                (digitsToInt (grp m 1)) (digitsToInt (grp m 2))
                (optDigits m 4) (optDigits m 5) (optDigits m 6)
                (parseFractionMilliseconds (m 7)) z (m 8)
         | r \<Rightarrow> r)"
    using parseSlashDate_of_match [of input m e z] by blast
  assume "\<not> isValidCalendarDate (expandTwoDigitYear (digitsToInt (grp m 1)))
              (digitsToInt (grp m 2)) (digitsToInt (grp m 3))"
  then show "parseSlashDate e input z =
             parseComponentsWithMeridiem e (expandTwoDigitYear (digitsToInt (grp m 3)))
                (digitsToInt (grp m 1)) (digitsToInt (grp m 2))
                (optDigits m 4) (optDigits m 5) (optDigits m 6)
                (parseFractionMilliseconds (m 7)) z (m 8)"
    using first by (simp add: invalid_date_declines)
next
  assume "(length a = 1 \<or> length a = 2) \<and> (\<forall>x\<in>set a. inRanges digit x)
      \<and> (length b = 1 \<or> length b = 2) \<and> (\<forall>x\<in>set b. inRanges digit x)
      \<and> (length c = 1 \<or> length c = 2) \<and> (\<forall>x\<in>set c. inRanges digit x)"
  then show "rxMatch slashPattern (a @ 47 # b @ 47 # c) = Some [1 \<mapsto> a, 2 \<mapsto> b, 3 \<mapsto> c]"
    using slash_match_date [of a b c] by blast
qed

theorem parseSlashDate_ambiguous_witness:
  "rxMatch slashPattern (js ''12/31/99'') = Some [1 \<mapsto> js ''12'', 2 \<mapsto> js ''31'', 3 \<mapsto> js ''99'']
   \<and> (\<forall>e. parseSlashDate e (js ''12/31/99'') (Fixed 0 (js ''UTC'')) = Inr (Some (Num 946598400000)))
   \<and> \<not> isValidCalendarDate 2012 31 99
   \<and> isValidCalendarDate 1999 12 31
   \<and> dateUTC 1999 11 31 0 0 0 0 = Num 946598400000
   \<and> (\<forall>e. parseSlashDate e (js ''01/02/03'') (Fixed 0 (js ''UTC'')) = Inr (Some (Num 981158400000)))
   \<and> dateUTC 2001 1 3 0 0 0 0 = Num 981158400000
   \<and> (\<forall>e. parseSlashDate e (js ''2/30/69 8:30 pm'') (Fixed 0 (js ''UTC'')) = Inr None)"
proof (intro conjI allI)
  show m1: "rxMatch slashPattern (js ''12/31/99'')
              = Some [1 \<mapsto> js ''12'', 2 \<mapsto> js ''31'', 3 \<mapsto> js ''99'']"
    using parseSlashDate_ambiguous [THEN conjunct2, of "js ''12''" "js ''31''" "js ''99''"]
    by (simp add: js_def digit_def)
  show "parseSlashDate e (js ''12/31/99'') (Fixed 0 (js ''UTC'')) = Inr (Some (Num 946598400000))" for e
    using parseSlashDate_ambiguous [THEN conjunct1, of "js ''12/31/99''" _ e "Fixed 0 (js ''UTC'')"] m1
    by (simp add: ev cong: let_weak_cong)
  show "\<not> isValidCalendarDate 2012 31 99" by (simp add: ev cong: let_weak_cong)
  show "isValidCalendarDate 1999 12 31" by (simp add: ev cong: let_weak_cong)
  show "dateUTC 1999 11 31 0 0 0 0 = Num 946598400000" by (simp add: ev cong: let_weak_cong)
  have m2: "rxMatch slashPattern (js ''01/02/03'')
              = Some [1 \<mapsto> js ''01'', 2 \<mapsto> js ''02'', 3 \<mapsto> js ''03'']"
    by (simp add: ev cong: let_weak_cong)
  show "parseSlashDate e (js ''01/02/03'') (Fixed 0 (js ''UTC'')) = Inr (Some (Num 981158400000))" for e
    using parseSlashDate_ambiguous [THEN conjunct1, of "js ''01/02/03''" _ e "Fixed 0 (js ''UTC'')"] m2
    by (simp add: ev cong: let_weak_cong)
  show "dateUTC 2001 1 3 0 0 0 0 = Num 981158400000" by (simp add: ev cong: let_weak_cong)
  have m3: "rxMatch slashPattern (js ''2/30/69 8:30 pm'') =
      Some [1 \<mapsto> js ''2'', 2 \<mapsto> js ''30'', 3 \<mapsto> js ''69'', 4 \<mapsto> js ''8'', 5 \<mapsto> js ''30'',
            8 \<mapsto> js ''pm'']"
    by (simp add: ev cong: let_weak_cong)
  show "parseSlashDate e (js ''2/30/69 8:30 pm'') (Fixed 0 (js ''UTC'')) = Inr None" for e
    using parseSlashDate_ambiguous [THEN conjunct1, of "js ''2/30/69 8:30 pm''" _ e "Fixed 0 (js ''UTC'')"] m3
    by (simp add: ev cong: let_weak_cong)
qed

section \<open>The formatted year\<close>

text \<open>
  C8, at inputs where the year of the formatted string has not four digits: the input
  \<open>0999-01-01\<close> in UTC parses to the instant -30641760000000, which is formatted with
  the three-digit year \<open>999\<close>; the instant 253402300800000 is formatted with the
  five-digit year \<open>10000\<close>. An instant of the year 2019 has the documented shape.
\<close>

theorem formatInstantForZone_year_999:
  "parseDateInput e (js ''0999-01-01'') (Fixed 0 (js ''UTC''))
     = Inr (ParseSuccess (js ''0999-01-01'') (Fixed 0 (js ''UTC'')) (js ''UTC'')
              (Num (- 30641760000000)) (js ''dash''))
   \<and> formatInstantForZone e (Num (- 30641760000000)) (Fixed 0 (js ''UTC''))
     = Inr (js ''999-01-01T00:00:00 +00:00 UTC'')
   \<and> formatInstantForZone e (Num 253402300800000) (Fixed 0 (js ''UTC''))
     = Inr (js ''10000-01-01T00:00:00 +00:00 UTC'')
   \<and> formatInstantForZone e (Num 1548908684000) (Fixed (- 420) (js ''UTC-07:00''))
     = Inr (js ''2019-01-30T21:24:44 -07:00 UTC-07:00'')"
  by (simp add: ev cong: let_weak_cong)

section \<open>The calendar of the host\<close>

lemma cycle_split:
  fixes n :: int
  defines "r \<equiv> n mod 146097"
  defines "b \<equiv> min 3 (r div 36524)"
  defines "r2 \<equiv> r - 36524 * b"
  defines "c \<equiv> r2 div 1461"
  defines "r3 \<equiv> r2 mod 1461"
  defines "e \<equiv> min 3 (r3 div 365)"
  defines "r4 \<equiv> r3 - 365 * e"
  shows "n = 146097 * (n div 146097) + 36524 * b + 1461 * c + 365 * e + r4"
    and "0 \<le> b \<and> b \<le> 3" and "0 \<le> c \<and> c \<le> 24" and "0 \<le> e \<and> e \<le> 3"
    and "0 \<le> r4"
    and "r4 \<le> 364 \<or> (r4 = 365 \<and> e = 3 \<and> (c \<noteq> 24 \<or> b = 3))"
proof -
  have r: "0 \<le> r" "r \<le> 146096" by (simp_all add: r_def)
  have b: "0 \<le> b" "b \<le> 3" using r by (auto simp: b_def)
  have r2: "0 \<le> r2" "r2 \<le> 36524" "b < 3 \<Longrightarrow> r2 \<le> 36523"
    using r unfolding r2_def b_def by (auto simp: min_def) 
  have c: "0 \<le> c" "c \<le> 24" using r2 unfolding c_def by (auto simp: pos_imp_zdiv_nonneg_iff) 
  have r3: "0 \<le> r3" "r3 \<le> 1460" "r2 = 1461 * c + r3" by (simp_all add: r3_def c_def)
  have r3': "c = 24 \<Longrightarrow> b < 3 \<Longrightarrow> r3 \<le> 1459" using r2(3) r3(3) by simp
  have e: "0 \<le> e" "e \<le> 3" using r3 by (auto simp: e_def)
  have r4: "0 \<le> r4" "r4 \<le> 364 \<or> (r4 = 365 \<and> e = 3 \<and> r3 = 1460)"
    using r3(1,2) unfolding r4_def e_def by (auto simp: min_def)
  have "n = 146097 * (n div 146097) + r" by (simp add: r_def)
  then show "n = 146097 * (n div 146097) + 36524 * b + 1461 * c + 365 * e + r4"
    using r3(3) by (simp add: r4_def r2_def)
  show "0 \<le> b \<and> b \<le> 3" using b by simp
  show "0 \<le> c \<and> c \<le> 24" using c by simp
  show "0 \<le> e \<and> e \<le> 3" using e by simp
  show "0 \<le> r4" using r4 by simp
  show "r4 \<le> 364 \<or> (r4 = 365 \<and> e = 3 \<and> (c \<noteq> 24 \<or> b = 3))"
    using r4(2) r3' b by force
qed

lemma yearAndDay_split:
  obtains a b c e r4 where
    "d + 719162 = 146097 * a + 36524 * b + 1461 * c + 365 * e + r4"
    "0 \<le> b \<and> b \<le> 3" "0 \<le> c \<and> c \<le> 24" "0 \<le> e \<and> e \<le> 3" "0 \<le> r4"
    "r4 \<le> 364 \<or> (r4 = 365 \<and> e = 3 \<and> (c \<noteq> 24 \<or> b = 3))"
    "yearAndDay d = (400 * a + 100 * b + 4 * c + e + 1, r4)"
proof -
  define n where "n = d + 719162"
  define r where "r = n mod 146097"
  define b where "b = min 3 (r div 36524)"
  define r2 where "r2 = r - 36524 * b"
  define c where "c = r2 div 1461"
  define r3 where "r3 = r2 mod 1461"
  define e where "e = min 3 (r3 div 365)"
  define r4 where "r4 = r3 - 365 * e"
  note cs = cycle_split [of n, folded r_def, folded b_def, folded r2_def, folded c_def r3_def,
      folded e_def, folded r4_def]
  have y: "yearAndDay d = (400 * (n div 146097) + 100 * b + 4 * c + e + 1, r4)"
    unfolding yearAndDay_def Let_def n_def r_def b_def r2_def c_def r3_def e_def r4_def
    by (rule refl)
  show ?thesis
    using that [of "n div 146097" b c e r4] cs y unfolding n_def by blast
qed

lemma div_rem_int:
  fixes k :: int
  assumes "0 \<le> r" "r < m"
  shows "(m * k + r) div m = k" and "(m * k + r) mod m = r"
  using assms by (simp_all add: div_pos_pos_trivial mod_pos_pos_trivial)

lemma dayFromYear_cycles:
  assumes "0 \<le> b \<and> b \<le> 3" "0 \<le> c \<and> c \<le> 24" "0 \<le> e \<and> e \<le> (3::int)"
  shows "dayFromYear (400 * a + 100 * b + 4 * c + e + 1)
           = 146097 * a + 36524 * b + 1461 * c + 365 * e - 719162"
proof -
  let ?y = "400 * a + 100 * b + 4 * c + e + 1"
  have e4: "?y - 1969 = 4 * (100 * a + 25 * b + c - 492) + e" by simp
  have d4: "(?y - 1969) div 4 = 100 * a + 25 * b + c - 492"
    by (subst e4, rule div_rem_int(1)) (use assms in auto)
  have e100: "?y - 1901 = 100 * (4 * a + b - 19) + (4 * c + e)" by simp
  have d100: "(?y - 1901) div 100 = 4 * a + b - 19"
    by (subst e100, rule div_rem_int(1)) (use assms in auto)
  have e400: "?y - 1601 = 400 * (a - 4) + (100 * b + 4 * c + e)" by simp
  have d400: "(?y - 1601) div 400 = a - 4"
    by (subst e400, rule div_rem_int(1)) (use assms in auto)
  show ?thesis unfolding dayFromYear_def d4 d100 d400 by simp
qed

lemma daysInYear_cycles:
  assumes "0 \<le> b \<and> b \<le> 3" "0 \<le> c \<and> c \<le> 24" "0 \<le> e \<and> e \<le> (3::int)"
  shows "inLeapYear (400 * a + 100 * b + 4 * c + e + 1) = (if e = 3 \<and> (c \<noteq> 24 \<or> b = 3) then 1 else 0)"
proof -
  let ?y = "400 * a + 100 * b + 4 * c + e + 1"
  have modc: "(x::int) mod m = (if x = m then 0 else x)" if "0 \<le> x" "x \<le> m" for x m
    using that by (auto simp: mod_pos_pos_trivial)
  have e4: "?y = 4 * (100 * a + 25 * b + c) + (e + 1)" by simp
  have "?y mod 4 = (e + 1) mod 4" by (subst e4) (simp only: mod_mult_self4)
  also have "\<dots> = (if e + 1 = 4 then 0 else e + 1)" using assms(3) by (intro modc) auto
  finally have m4: "?y mod 4 = (if e = 3 then 0 else e + 1)" by auto
  have e100: "?y = 100 * (4 * a + b) + (4 * c + e + 1)" by simp
  have "?y mod 100 = (4 * c + e + 1) mod 100" by (subst e100) (simp only: mod_mult_self4)
  also have "\<dots> = (if 4 * c + e + 1 = 100 then 0 else 4 * c + e + 1)"
    using assms(2,3) by (intro modc) auto
  finally have m100: "?y mod 100 = (if e = 3 \<and> c = 24 then 0 else 4 * c + e + 1)"
    using assms(2,3) by auto
  have e400: "?y = 400 * a + (100 * b + 4 * c + e + 1)" by simp
  have "?y mod 400 = (100 * b + 4 * c + e + 1) mod 400" by (subst e400) (simp only: mod_mult_self4)
  also have "\<dots> = (if 100 * b + 4 * c + e + 1 = 400 then 0 else 100 * b + 4 * c + e + 1)"
    using assms by (intro modc) auto
  finally have m400: "?y mod 400 = (if e = 3 \<and> c = 24 \<and> b = 3 then 0 else 100 * b + 4 * c + e + 1)"
    using assms by auto
  show ?thesis unfolding inLeapYear_def daysInYear_def m4 m100 m400 using assms by auto
qed

lemma year_day_inverse:
  "dayFromYear (yearFromDay d) + dayWithinYear d = d
   \<and> 0 \<le> dayWithinYear d \<and> dayWithinYear d \<le> 364 + inLeapYear (yearFromDay d)"
proof -
  obtain a b c e r4 where h:
    "d + 719162 = 146097 * a + 36524 * b + 1461 * c + 365 * e + r4"
    "0 \<le> b \<and> b \<le> 3" "0 \<le> c \<and> c \<le> 24" "0 \<le> e \<and> e \<le> 3" "0 \<le> r4"
    "r4 \<le> 364 \<or> (r4 = 365 \<and> e = 3 \<and> (c \<noteq> 24 \<or> b = 3))"
    "yearAndDay d = (400 * a + 100 * b + 4 * c + e + 1, r4)"
    by (rule yearAndDay_split)
  have y: "yearFromDay d = 400 * a + 100 * b + 4 * c + e + 1" "dayWithinYear d = r4"
    using h(7) by (simp_all add: yearFromDay_def dayWithinYear_def)
  show ?thesis
    unfolding y dayFromYear_cycles [OF h(2,3,4)] daysInYear_cycles [OF h(2,3,4)]
    using h(1,5,6) by auto
qed

lemma month_table:
  fixes w l :: int
  assumes w: "0 \<le> w" "w \<le> 364 + l" and l: "l = 0 \<or> l = 1"
  defines "m \<equiv> (if w < 31 then 0 else if w < 59 + l then 1 else if w < 90 + l then 2
      else if w < 120 + l then 3 else if w < 151 + l then 4 else if w < 181 + l then 5
      else if w < 212 + l then 6 else if w < 243 + l then 7 else if w < 273 + l then 8
      else if w < 304 + l then 9 else if w < 334 + l then 10 else (11::int))"
  defines "dt \<equiv> (if m = 0 then w + 1 else if m = 1 then w - 30 else if m = 2 then w - 58 - l
      else if m = 3 then w - 89 - l else if m = 4 then w - 119 - l
      else if m = 5 then w - 150 - l else if m = 6 then w - 180 - l
      else if m = 7 then w - 211 - l else if m = 8 then w - 242 - l
      else if m = 9 then w - 272 - l else if m = 10 then w - 303 - l else w - 333 - l)"
  shows "monthStart m l + dt - 1 = w \<and> 0 \<le> m \<and> m \<le> 11 \<and> 1 \<le> dt \<and> dt \<le> 31"
proof -
  have lb: "0 \<le> l" "l \<le> 1" using l by auto
  consider "w < 31" | "31 \<le> w \<and> w < 59 + l" | "59 + l \<le> w \<and> w < 90 + l"
    | "90 + l \<le> w \<and> w < 120 + l" | "120 + l \<le> w \<and> w < 151 + l"
    | "151 + l \<le> w \<and> w < 181 + l" | "181 + l \<le> w \<and> w < 212 + l"
    | "212 + l \<le> w \<and> w < 243 + l" | "243 + l \<le> w \<and> w < 273 + l"
    | "273 + l \<le> w \<and> w < 304 + l" | "304 + l \<le> w \<and> w < 334 + l" | "334 + l \<le> w"
    by (meson not_le)
  then show ?thesis
  proof cases
    case 1
    then have "m = 0" by (simp add: m_def)
    then show ?thesis using 1 w lb by (simp add: dt_def monthStart_def)
  next
    case 2
    then have "m = 1" using lb by (simp add: m_def)
    then show ?thesis using 2 w lb by (simp add: dt_def monthStart_def)
  next
    case 3
    then have "m = 2" using lb by (simp add: m_def)
    then show ?thesis using 3 w lb by (simp add: dt_def monthStart_def)
  next
    case 4
    then have "m = 3" using lb by (simp add: m_def)
    then show ?thesis using 4 w lb by (simp add: dt_def monthStart_def)
  next
    case 5
    then have "m = 4" using lb by (simp add: m_def)
    then show ?thesis using 5 w lb by (simp add: dt_def monthStart_def)
  next
    case 6
    then have "m = 5" using lb by (simp add: m_def)
    then show ?thesis using 6 w lb by (simp add: dt_def monthStart_def)
  next
    case 7
    then have "m = 6" using lb by (simp add: m_def)
    then show ?thesis using 7 w lb by (simp add: dt_def monthStart_def)
  next
    case 8
    then have "m = 7" using lb by (simp add: m_def)
    then show ?thesis using 8 w lb by (simp add: dt_def monthStart_def)
  next
    case 9
    then have "m = 8" using lb by (simp add: m_def)
    then show ?thesis using 9 w lb by (simp add: dt_def monthStart_def)
  next
    case 10
    then have "m = 9" using lb by (simp add: m_def)
    then show ?thesis using 10 w lb by (simp add: dt_def monthStart_def)
  next
    case 11
    then have "m = 10" using lb by (simp add: m_def)
    then show ?thesis using 11 w lb by (simp add: dt_def monthStart_def)
  next
    case 12
    then have "m = 11" using lb by (simp add: m_def)
    then show ?thesis using 12 w lb by (simp add: dt_def monthStart_def)
  qed
qed

lemma month_date_inverse:
  assumes "0 \<le> dayWithinYear d" "dayWithinYear d \<le> 364 + inLeapYear (yearFromDay d)"
  shows "monthStart (monthFromDay d) (inLeapYear (yearFromDay d)) + dateFromDay d - 1 = dayWithinYear d
         \<and> 0 \<le> monthFromDay d \<and> monthFromDay d \<le> 11
         \<and> 1 \<le> dateFromDay d \<and> dateFromDay d \<le> 31"
proof -
  have l: "inLeapYear (yearFromDay d) = 0 \<or> inLeapYear (yearFromDay d) = 1"
    by (simp add: inLeapYear_def)
  show ?thesis
    using month_table [OF assms l]
    unfolding dateFromDay_def monthFromDay_def Let_def .
qed



lemma mod_bounds:
  fixes s :: int
  shows "0 \<le> (s div 3600000) mod 24 \<and> (s div 3600000) mod 24 \<le> 23"
    and "0 \<le> (s div 60000) mod 60 \<and> (s div 60000) mod 60 \<le> 59"
    and "0 \<le> (s div 1000) mod 60 \<and> (s div 1000) mod 60 \<le> 59"
  by simp_all




section \<open>The text of a date and time\<close>










section \<open>Formatting and parsing again\<close>













lemma utcEnv_parts:
  "dateTimeParts utcEnv z t =
     [(js ''month'', monthFromDay (t div msPerDay) + 1),
      (js ''day'', dateFromDay (t div msPerDay)),
      (js ''year'', yearFromDay (t div msPerDay)),
      (js ''hour'', (t div 3600000) mod 24),
      (js ''minute'', (t div 60000) mod 60),
      (js ''second'', (t div 1000) mod 60)]"
  by (simp add: utcEnv_def)





section \<open>The meridiem in the parsers\<close>

lemma leads_cat: "leads a x y \<Longrightarrow> leads b y z \<Longrightarrow> leads (Cat a b) x z"
proof -
  assume a: "leads a x y" and b: "leads b y z"
  show ?thesis unfolding leads_def
  proof
    fix p
    from a obtain p1 m1 where 1: "rmatch a (fst x, p, snd x) = (fst y, p1, snd y) # m1"
      unfolding leads_def by blast
    from b obtain p2 m2 where 2: "rmatch b (fst y, p1, snd y) = (fst z, p2, snd z) # m2"
      unfolding leads_def by blast
    show "\<exists>p' more. rmatch (Cat a b) (fst x, p, snd x) = (fst z, p', snd z) # more"
      by (simp add: 1 2)
  qed
qed

lemma leads_eps: "leads Eps x x"
  by (simp add: leads_def)

lemma leads_eos: "leads Eos (cp, []) (cp, [])"
  by (simp add: leads_def)

lemma leads_cls: "inRanges rs c \<Longrightarrow> leads (Cls rs) (cp, c # t) (cp, t)"
  by (simp add: leads_def)

lemma leads_opt: "leads a x y \<Longrightarrow> leads (Opt a) x y"
  by (auto simp: leads_def) (metis append_Cons)

lemma leads_skip:
  "(\<And>p. rmatch a (cp, p, s) = []) \<Longrightarrow> leads r (cp, s) z \<Longrightarrow> leads (Cat (Opt a) r) (cp, s) z"
  by (simp add: leads_def)

lemma rep_greedy:
  "list_all (inRanges rs) x \<Longrightarrow> m \<le> length x \<Longrightarrow> (\<forall>b. n = Some b \<longrightarrow> length x \<le> b) \<Longrightarrow>
   n = Some (length x) \<or> rest = [] \<or> \<not> inRanges rs (hd rest) \<Longrightarrow>
   \<exists>p' more. rep rs m n p (x @ rest) = (p', rest) # more"
proof (induction x arbitrary: m n p)
  case Nil
  then show ?case by (cases rest) auto
next
  case (Cons c x)
  have n0: "n \<noteq> Some 0" using Cons.prems(3) by auto
  have c: "inRanges rs c" "list_all (inRanges rs) x" using Cons.prems(1) by auto
  have "\<exists>p' more. rep rs (m - 1) (map_option (\<lambda>k. k - 1) n) (Some c) (x @ rest) = (p', rest) # more"
  proof (rule Cons.IH [OF c(2)])
    show "m - 1 \<le> length x" using Cons.prems(2) by simp
    show "\<forall>b. map_option (\<lambda>k. k - 1) n = Some b \<longrightarrow> length x \<le> b"
      using Cons.prems(3) by (cases n) auto
    show "map_option (\<lambda>k. k - 1) n = Some (length x) \<or> rest = [] \<or> \<not> inRanges rs (hd rest)"
      using Cons.prems(4) by auto
  qed
  then show ?case using n0 c(1) by auto
qed

lemma leads_rep:
  "list_all (inRanges rs) x \<Longrightarrow> m \<le> length x \<Longrightarrow> (\<forall>b. n = Some b \<longrightarrow> length x \<le> b) \<Longrightarrow>
   n = Some (length x) \<or> rest = [] \<or> \<not> inRanges rs (hd rest) \<Longrightarrow>
   leads (Rep rs m n) (cp, x @ rest) (cp, rest)"
  unfolding leads_def
proof
  fix p
  assume "list_all (inRanges rs) x" "m \<le> length x" "\<forall>b. n = Some b \<longrightarrow> length x \<le> b"
    "n = Some (length x) \<or> rest = [] \<or> \<not> inRanges rs (hd rest)"
  from rep_greedy [OF this, of p] obtain p' more where "rep rs m n p (x @ rest) = (p', rest) # more"
    by blast
  then show "\<exists>p' more. rmatch (Rep rs m n) (fst (cp, x @ rest), p, snd (cp, x @ rest))
                = (fst (cp, rest), p', snd (cp, rest)) # more"
    by simp
qed

lemma leads_grp: "leads a (cp, x @ rest) (cp', rest) \<Longrightarrow> leads (Grp i a) (cp, x @ rest) (cp'(i \<mapsto> x), rest)"
  unfolding leads_def
proof
  fix p
  assume "\<forall>p. \<exists>p' more. rmatch a (fst (cp, x @ rest), p, snd (cp, x @ rest))
            = (fst (cp', rest), p', snd (cp', rest)) # more"
  then have "\<exists>p' more. rmatch a (cp, p, x @ rest) = (cp', p', rest) # more" by simp
  then obtain p' more where "rmatch a (cp, p, x @ rest) = (cp', p', rest) # more" by blast
  then show "\<exists>p' more. rmatch (Grp i a) (fst (cp, x @ rest), p, snd (cp, x @ rest))
                = (fst (cp'(i \<mapsto> x), rest), p', snd (cp'(i \<mapsto> x), rest)) # more"
    by simp
qed

lemma leads_digits:
  "list_all (inRanges digit) x \<Longrightarrow> m \<le> length x \<Longrightarrow> length x \<le> b \<Longrightarrow>
   length x = b \<or> rest = [] \<or> \<not> inRanges digit (hd rest) \<Longrightarrow>
   leads (Grp i (Rep digit m (Some b))) (cp, x @ rest) (cp(i \<mapsto> x), rest)"
  by (intro leads_grp leads_rep) auto

lemma leads_spaces:
  "list_all (inRanges space) x \<Longrightarrow> m \<le> length x \<Longrightarrow> rest = [] \<or> \<not> inRanges space (hd rest) \<Longrightarrow>
   leads (Rep space m None) (cp, x @ rest) (cp, rest)"
  by (intro leads_rep) auto

lemma meridiem_token:
  assumes "toUpperCase mer = js ''AM'' \<or> toUpperCase mer = js ''PM''"
  shows "\<exists>a b. mer = [a, b] \<and> (a = 65 \<or> a = 97 \<or> a = 80 \<or> a = 112) \<and> (b = 77 \<or> b = 109)"
proof -
  have "length mer = 2" using assms by (auto simp: toUpperCase_def js_def dest: arg_cong [where f = length])
  then obtain a b where m: "mer = [a, b]" by (cases mer; cases "tl mer") auto
  have "upperChar a = 65 \<or> upperChar a = 80" "upperChar b = 77"
    using assms unfolding m by (auto simp: toUpperCase_def js_def)
  then have "(a = 65 \<or> a = 97 \<or> a = 80 \<or> a = 112) \<and> (b = 77 \<or> b = 109)"
    by (auto simp: upperChar_def split: if_splits)
  then show ?thesis using m by blast
qed

lemma leads_meridiem:
  assumes "toUpperCase mer = js ''AM'' \<or> toUpperCase mer = js ''PM''"
  shows "leads (Grp i meridiemPattern) (cp, mer @ rest) (cp(i \<mapsto> mer), rest)"
proof (rule leads_grp)
  from meridiem_token [OF assms] obtain a b where m: "mer = [a, b]"
    "a = 65 \<or> a = 97 \<or> a = 80 \<or> a = 112" "b = 77 \<or> b = 109" by blast
  show "leads meridiemPattern (cp, mer @ rest) (cp, rest)"
    unfolding leads_def meridiemPattern_def litI_def
    using m(2,3) by (auto simp: m(1) seq_def rmatch_chI js_def lowerChar_def)
qed

lemma rxMatch_leads: "leads r (Map.empty, s) (cp, []) \<Longrightarrow> rxMatch r s = Some cp"
  unfolding leads_def rxMatch_def
proof -
  assume "\<forall>p. \<exists>p' more. rmatch r (fst (Map.empty, s), p, snd (Map.empty, s)) = (fst (cp, []), p', snd (cp, [])) # more"
  then have "\<exists>p' more. rmatch r (Map.empty, None, s) = (cp, p', []) # more" by simp
  then obtain p' more where "rmatch r (Map.empty, None, s) = (cp, p', []) # more" by blast
  then show "(case rmatch r (Map.empty, None, s) of [] \<Rightarrow> None | (cp, p, t) # x \<Rightarrow> Some cp) = Some cp"
    by simp
qed

lemma not_digit:
  "\<not> inRanges digit 45" "\<not> inRanges digit 58" "\<not> inRanges digit 46" "\<not> inRanges digit 44"
  "\<not> inRanges digit 47"
  "inRanges space x \<Longrightarrow> \<not> inRanges digit x" "inRanges alpha x \<Longrightarrow> \<not> inRanges digit x"
  by (auto simp: digit_def space_def alpha_def)

lemma step_mer_none:
  assumes "leads r (cp, []) z"
  shows "leads (Cat (Opt (seq [Rep space 0 None, Grp i meridiemPattern])) r) (cp, []) z"
  using assms by (intro leads_skip) (simp_all add: seq_def meridiemPattern_def litI_def js_def rmatch_chI)

lemma token_head:
  assumes "toUpperCase mer = js ''AM'' \<or> toUpperCase mer = js ''PM''"
  shows "mer \<noteq> []" "inRanges alpha (hd mer)" "\<not> inRanges space (hd mer)" "\<not> inRanges space (last mer)"
  using meridiem_token [OF assms] by (auto simp: alpha_def space_def)

lemma step_mer_some:
  assumes sp: "list_all (inRanges space) sp"
    and mer: "toUpperCase mer = js ''AM'' \<or> toUpperCase mer = js ''PM''"
    and r: "leads r (cp(i \<mapsto> mer), []) z"
  shows "leads (Cat (Opt (seq [Rep space 0 None, Grp i meridiemPattern])) r) (cp, sp @ mer) z"
proof -
  have a: "leads (Rep space 0 None) (cp, sp @ mer) (cp, mer)"
    using sp token_head [OF mer] by (intro leads_spaces) auto
  have b: "leads (Grp i meridiemPattern) (cp, mer) (cp(i \<mapsto> mer), [])"
    using leads_meridiem [OF mer, of i cp "[]"] by simp
  have "leads (seq [Rep space 0 None, Grp i meridiemPattern]) (cp, sp @ mer) (cp(i \<mapsto> mer), [])"
    unfolding seq_def using leads_cat [OF a leads_cat [OF b leads_eps]] by simp
  from leads_cat [OF leads_opt [OF this] r] show ?thesis .
qed

lemma step_frac:
  assumes c: "c = 46 \<or> c = 44"
    and fd: "case fd of None \<Rightarrow> True
             | Some f \<Rightarrow> list_all (inRanges digit) f \<and> 1 \<le> length f \<and> length f \<le> 9"
    and rest: "rest = [] \<or> inRanges space (hd rest) \<or> inRanges alpha (hd rest)"
    and r: "leads r (case fd of None \<Rightarrow> cp | Some f \<Rightarrow> cp(i \<mapsto> f), rest) z"
  shows "leads (Cat (Opt (seq [oneOf ''.,'', Grp i (Rep digit 1 (Some 9))])) r) (cp, fracText c fd @ rest) z"
proof (cases fd)
  case None
  have "rmatch (seq [oneOf ''.,'', Grp i (Rep digit 1 (Some 9))]) (cp, p, rest) = []" for p
    using rest by (cases rest) (auto simp: seq_def oneOf_def js_def space_def alpha_def)
  then show ?thesis using r None by (simp add: fracText_def leads_skip)
next
  case (Some f)
  have a: "leads (oneOf ''.,'') (cp, c # f @ rest) (cp, f @ rest)"
    unfolding oneOf_def using c by (intro leads_cls) (auto simp: js_def)
  have b: "leads (Grp i (Rep digit 1 (Some 9))) (cp, f @ rest) (cp(i \<mapsto> f), rest)"
    using fd rest Some not_digit by (intro leads_digits) auto
  have "leads (seq [oneOf ''.,'', Grp i (Rep digit 1 (Some 9))]) (cp, c # f @ rest) (cp(i \<mapsto> f), rest)"
    unfolding seq_def using leads_cat [OF a leads_cat [OF b leads_eps]] by simp
  from leads_cat [OF leads_opt [OF this]] r Some show ?thesis by (simp add: fracText_def)
qed

lemma step_secs:
  assumes sd: "case sd of None \<Rightarrow> True | Some s \<Rightarrow> list_all (inRanges digit) s \<and> length s = 2"
    and rest: "rest = [] \<or> hd rest = 46 \<or> hd rest = 44 \<or> inRanges space (hd rest)
               \<or> inRanges alpha (hd rest)"
    and r: "leads r (case sd of None \<Rightarrow> cp | Some s \<Rightarrow> cp(i \<mapsto> s), rest) z"
  shows "leads (Cat (Opt (seq [ch 58, Grp i (Rep digit 2 (Some 2))])) r) (cp, secsText sd @ rest) z"
proof (cases sd)
  case None
  have "rmatch (seq [ch 58, Grp i (Rep digit 2 (Some 2))]) (cp, p, rest) = []" for p
    using rest by (cases rest) (auto simp: seq_def ch_def space_def alpha_def)
  then show ?thesis using r None by (simp add: secsText_def leads_skip)
next
  case (Some s)
  have a: "leads (ch 58) (cp, 58 # s @ rest) (cp, s @ rest)"
    unfolding ch_def by (intro leads_cls) auto
  have b: "leads (Grp i (Rep digit 2 (Some 2))) (cp, s @ rest) (cp(i \<mapsto> s), rest)"
    using sd Some by (intro leads_digits) auto
  have "leads (seq [ch 58, Grp i (Rep digit 2 (Some 2))]) (cp, 58 # s @ rest) (cp(i \<mapsto> s), rest)"
    unfolding seq_def using leads_cat [OF a leads_cat [OF b leads_eps]] by simp
  from leads_cat [OF leads_opt [OF this]] r Some show ?thesis by (simp add: secsText_def)
qed

lemma fracText_head:
  assumes "c = 46 \<or> c = 44" "rest = [] \<or> inRanges space (hd rest) \<or> inRanges alpha (hd rest)"
  shows "fracText c fd @ rest = [] \<or> hd (fracText c fd @ rest) = 46 \<or> hd (fracText c fd @ rest) = 44
         \<or> inRanges space (hd (fracText c fd @ rest)) \<or> inRanges alpha (hd (fracText c fd @ rest))"
  using assms by (cases fd) (auto simp: fracText_def)

text \<open>The part of a pattern behind the minutes: seconds, fraction and meridiem, each optional.\<close>

lemma time_tail:
  assumes tf: "timeFields hs mi sd c fd"
    and tl: "tail = [] \<and> cm = None
             \<or> (\<exists>sp mer. tail = sp @ mer \<and> cm = Some mer \<and> list_all (inRanges space) sp
                  \<and> (toUpperCase mer = js ''AM'' \<or> toUpperCase mer = js ''PM''))"
    and r: "leads r ((\<lambda>x. if x = 6 then sd else if x = 7 then fd else if x = 8 then cm else cp x), []) z"
    and cp: "cp 6 = None" "cp 7 = None" "cp 8 = None"
  shows "leads (Cat (Opt (seq [ch 58, Grp 6 (Rep digit 2 (Some 2))]))
               (Cat (Opt (seq [oneOf ''.,'', Grp 7 (Rep digit 1 (Some 9))]))
               (Cat (Opt (seq [Rep space 0 None, Grp 8 meridiemPattern])) r)))
           (cp, secsText sd @ fracText c fd @ tail) z"
proof -
  let ?c6 = "case sd of None \<Rightarrow> cp | Some s \<Rightarrow> cp(6 \<mapsto> s)"
  let ?c7 = "case fd of None \<Rightarrow> ?c6 | Some f \<Rightarrow> ?c6(7 \<mapsto> f)"
  let ?c8 = "case cm of None \<Rightarrow> ?c7 | Some m \<Rightarrow> ?c7(8 \<mapsto> m)"
  have e: "?c8 = (\<lambda>x. if x = 6 then sd else if x = 7 then fd else if x = 8 then cm else cp x)"
    using cp by (auto simp: fun_eq_iff split: option.splits)
  have th: "tail = [] \<or> inRanges space (hd tail) \<or> inRanges alpha (hd tail)"
  proof -
    from tl consider "tail = []" | sp mer where "tail = sp @ mer" "list_all (inRanges space) sp"
      "toUpperCase mer = js ''AM'' \<or> toUpperCase mer = js ''PM''" by blast
    then show ?thesis
    proof cases
      case 1
      then show ?thesis by simp
    next
      case 2
      then show ?thesis using token_head [OF 2(3)] by (cases sp) auto
    qed
  qed
  have m: "leads (Cat (Opt (seq [Rep space 0 None, Grp 8 meridiemPattern])) r) (?c7, tail) z"
  proof -
    from tl consider "tail = []" "cm = None" | sp mer where "tail = sp @ mer" "cm = Some mer"
      "list_all (inRanges space) sp" "toUpperCase mer = js ''AM'' \<or> toUpperCase mer = js ''PM''"
      by blast
    then show ?thesis
    proof cases
      case 1
      have "leads r (?c7, []) z" using r e 1(2) by simp
      from step_mer_none [OF this] show ?thesis using 1(1) by simp
    next
      case 2
      have "leads r (?c7(8 \<mapsto> mer), []) z" using r e 2(2) by simp
      from step_mer_some [OF 2(3,4) this] show ?thesis using 2(1) by simp
    qed
  qed
  have f: "leads (Cat (Opt (seq [oneOf ''.,'', Grp 7 (Rep digit 1 (Some 9))]))
               (Cat (Opt (seq [Rep space 0 None, Grp 8 meridiemPattern])) r))
             (?c6, fracText c fd @ tail) z"
    using tf th m by (intro step_frac) (auto simp: timeFields_def)
  show ?thesis
    using tf f fracText_head [of c tail fd] th
    by (intro step_secs) (auto simp: timeFields_def)
qed

lemma four_digits:
  assumes "length ys = 4" "list_all (inRanges digit) ys"
  shows "\<exists>y3 y2 y1 y0. ys = [y3, y2, y1, y0] \<and> inRanges digit y3 \<and> inRanges digit y2
           \<and> inRanges digit y1 \<and> inRanges digit y0"
proof -
  from assms(1) obtain y3 y2 y1 y0 where "ys = [y3, y2, y1, y0]"
    by (cases ys; cases "tl ys"; cases "tl (tl ys)"; cases "tl (tl (tl ys))") auto
  then show ?thesis using assms(2) by auto
qed

lemma short_digits:
  assumes "list_all (inRanges digit) ds" "1 \<le> length ds" "length ds \<le> 2"
  shows "\<exists>d1 d2. (ds = [d1] \<or> ds = [d1, d2]) \<and> inRanges digit d1 \<and> inRanges digit d2"
proof -
  have "length ds = 1 \<or> length ds = 2" using assms(2,3) by linarith
  then show ?thesis using digits_shape [of ds] assms(1) by (simp add: list_all_iff)
qed

lemma dash_others:
  assumes ys: "length ys = 4" "list_all (inRanges digit) ys"
    and mo: "list_all (inRanges digit) mo" "1 \<le> length mo" "length mo \<le> 2"
    and ds: "list_all (inRanges digit) ds" "1 \<le> length ds" "length ds \<le> 2"
    and sep: "inRanges ([(84, 84), (116, 116)] @ space) sep"
  shows "rxMatch plainDatePattern (ys @ 45 # mo @ 45 # ds @ sep # rest) = None"
    and "rxMatch yearMonthPattern (ys @ 45 # mo @ 45 # ds @ sep # rest) = None"
    and "rxMatch monthTextPattern (ys @ 45 # mo @ 45 # ds @ sep # rest) = None"
proof -
  from four_digits [OF ys] obtain y3 y2 y1 y0 where y: "ys = [y3, y2, y1, y0]"
    "inRanges digit y3" "inRanges digit y2" "inRanges digit y1" "inRanges digit y0" by blast
  from short_digits [OF mo] obtain m1 m2 where m: "mo = [m1] \<or> mo = [m1, m2]"
    "inRanges digit m1" "inRanges digit m2" by blast
  from short_digits [OF ds] obtain d1 d2 where d: "ds = [d1] \<or> ds = [d1, d2]"
    "inRanges digit d1" "inRanges digit d2" by blast
  have sd: "\<not> inRanges digit sep" using sep by (auto simp: digit_def space_def)
  have ne: "\<And>x. inRanges digit x \<Longrightarrow> x \<noteq> 45" by (auto simp: digit_def)
  have na: "\<And>x. inRanges digit x \<Longrightarrow> \<not> inRanges alpha x" by (auto simp: digit_def alpha_def)
  note r = rxMatch_def seq_def ch_def
  show "rxMatch plainDatePattern (ys @ 45 # mo @ 45 # ds @ sep # rest) = None"
    using m d y(2-) sd ne not_digit(1) by (auto simp: r y(1) plainDatePattern_def)
  show "rxMatch yearMonthPattern (ys @ 45 # mo @ 45 # ds @ sep # rest) = None"
    using m d y(2-) sd ne not_digit(1) by (auto simp: r y(1) yearMonthPattern_def)
  show "rxMatch monthTextPattern (ys @ 45 # mo @ 45 # ds @ sep # rest) = None"
    using m d y(2-) sd ne na not_digit(1) by (auto simp: r y(1) monthTextPattern_def)
qed

lemma dash_time_match:
  assumes ys: "length ys = 4" "list_all (inRanges digit) ys"
    and mo: "list_all (inRanges digit) mo" "1 \<le> length mo" "length mo \<le> 2"
    and ds: "list_all (inRanges digit) ds" "1 \<le> length ds" "length ds \<le> 2"
    and sep: "inRanges ([(84, 84), (116, 116)] @ space) sep"
    and tf: "timeFields hs mi sd c fd"
    and tl: "tail = [] \<and> cm = None
             \<or> (\<exists>sp mer. tail = sp @ mer \<and> cm = Some mer \<and> list_all (inRanges space) sp
                  \<and> (toUpperCase mer = js ''AM'' \<or> toUpperCase mer = js ''PM''))"
  shows "rxMatch dateTimePattern (ys @ 45 # mo @ 45 # ds @ sep # timeText hs mi sd c fd @ tail)
           = Some (\<lambda>x. if x = 6 then sd else if x = 7 then fd else if x = 8 then cm
                        else [1 \<mapsto> ys, 2 \<mapsto> mo, 3 \<mapsto> ds, 4 \<mapsto> hs, 5 \<mapsto> mi] x)"
proof -
  let ?t = "secsText sd @ fracText c fd @ tail"
  let ?c5 = "[1 \<mapsto> ys, 2 \<mapsto> mo, 3 \<mapsto> ds, 4 \<mapsto> hs, 5 \<mapsto> mi]"
  let ?cf = "\<lambda>x. if x = 6 then sd else if x = 7 then fd else if x = 8 then cm else ?c5 x"
  have h: "list_all (inRanges digit) hs" "1 \<le> length hs" "length hs \<le> 2"
    "list_all (inRanges digit) mi" "length mi = 2"
    using tf by (auto simp: timeFields_def)
  have sdg: "\<not> inRanges digit sep" using sep by (auto simp: digit_def space_def)
  have e: "leads (Cat Eos Eps) (?cf, []) (?cf, [])" by (rule leads_cat [OF leads_eos leads_eps])
  have t: "leads (Cat (Opt (seq [ch 58, Grp 6 (Rep digit 2 (Some 2))]))
               (Cat (Opt (seq [oneOf ''.,'', Grp 7 (Rep digit 1 (Some 9))]))
               (Cat (Opt (seq [Rep space 0 None, Grp 8 meridiemPattern])) (Cat Eos Eps))))
             (?c5, ?t) (?cf, [])"
    by (rule time_tail [OF tf tl e]) simp_all
  have g5: "leads (Grp 5 (Rep digit 2 (Some 2))) ([1 \<mapsto> ys, 2 \<mapsto> mo, 3 \<mapsto> ds, 4 \<mapsto> hs], mi @ ?t) (?c5, ?t)"
    using h by (intro leads_digits) auto
  have c4: "leads (ch 58) ([1 \<mapsto> ys, 2 \<mapsto> mo, 3 \<mapsto> ds, 4 \<mapsto> hs], 58 # mi @ ?t)
              ([1 \<mapsto> ys, 2 \<mapsto> mo, 3 \<mapsto> ds, 4 \<mapsto> hs], mi @ ?t)"
    unfolding ch_def by (intro leads_cls) simp
  have g4: "leads (Grp 4 (Rep digit 1 (Some 2))) ([1 \<mapsto> ys, 2 \<mapsto> mo, 3 \<mapsto> ds], hs @ 58 # mi @ ?t)
              ([1 \<mapsto> ys, 2 \<mapsto> mo, 3 \<mapsto> ds, 4 \<mapsto> hs], 58 # mi @ ?t)"
    using h not_digit by (intro leads_digits) auto
  have sp: "leads (Cls ([(84, 84), (116, 116)] @ space)) ([1 \<mapsto> ys, 2 \<mapsto> mo, 3 \<mapsto> ds], sep # hs @ 58 # mi @ ?t)
              ([1 \<mapsto> ys, 2 \<mapsto> mo, 3 \<mapsto> ds], hs @ 58 # mi @ ?t)"
    using sep by (intro leads_cls)
  have g3: "leads (Grp 3 (Rep digit 1 (Some 2))) ([1 \<mapsto> ys, 2 \<mapsto> mo], ds @ sep # hs @ 58 # mi @ ?t)
              ([1 \<mapsto> ys, 2 \<mapsto> mo, 3 \<mapsto> ds], sep # hs @ 58 # mi @ ?t)"
    using ds sdg by (intro leads_digits) auto
  have c2: "leads (ch 45) ([1 \<mapsto> ys, 2 \<mapsto> mo], 45 # ds @ sep # hs @ 58 # mi @ ?t)
              ([1 \<mapsto> ys, 2 \<mapsto> mo], ds @ sep # hs @ 58 # mi @ ?t)"
    unfolding ch_def by (intro leads_cls) simp
  have g2: "leads (Grp 2 (Rep digit 1 (Some 2))) ([1 \<mapsto> ys], mo @ 45 # ds @ sep # hs @ 58 # mi @ ?t)
              ([1 \<mapsto> ys, 2 \<mapsto> mo], 45 # ds @ sep # hs @ 58 # mi @ ?t)"
    using mo not_digit by (intro leads_digits) auto
  have c1: "leads (ch 45) ([1 \<mapsto> ys], 45 # mo @ 45 # ds @ sep # hs @ 58 # mi @ ?t)
              ([1 \<mapsto> ys], mo @ 45 # ds @ sep # hs @ 58 # mi @ ?t)"
    unfolding ch_def by (intro leads_cls) simp
  have g1: "leads (Grp 1 (Rep digit 4 (Some 4))) (Map.empty, ys @ 45 # mo @ 45 # ds @ sep # hs @ 58 # mi @ ?t)
              ([1 \<mapsto> ys], 45 # mo @ 45 # ds @ sep # hs @ 58 # mi @ ?t)"
    using ys by (intro leads_digits) auto
  have p: "dateTimePattern =
      Cat (Grp 1 (Rep digit 4 (Some 4))) (Cat (ch 45) (Cat (Grp 2 (Rep digit 1 (Some 2)))
      (Cat (ch 45) (Cat (Grp 3 (Rep digit 1 (Some 2))) (Cat (Cls ([(84, 84), (116, 116)] @ space))
      (Cat (Grp 4 (Rep digit 1 (Some 2))) (Cat (ch 58) (Cat (Grp 5 (Rep digit 2 (Some 2)))
      (Cat (Opt (seq [ch 58, Grp 6 (Rep digit 2 (Some 2))]))
      (Cat (Opt (seq [oneOf ''.,'', Grp 7 (Rep digit 1 (Some 9))]))
      (Cat (Opt (seq [Rep space 0 None, Grp 8 meridiemPattern])) (Cat Eos Eps))))))))))))"
    by (simp add: dateTimePattern_def seq_def)
  have "leads dateTimePattern (Map.empty, ys @ 45 # mo @ 45 # ds @ sep # hs @ 58 # mi @ ?t) (?cf, [])"
    unfolding p
    by (intro leads_cat [OF g1] leads_cat [OF c1] leads_cat [OF g2] leads_cat [OF c2]
        leads_cat [OF g3] leads_cat [OF sp] leads_cat [OF g4] leads_cat [OF c4]
        leads_cat [OF g5] t)
  from rxMatch_leads [OF this] show ?thesis by (simp add: timeText_def)
qed

lemma applyMeridiem_spec:
  assumes "toUpperCase mer = js ''AM'' \<or> toUpperCase mer = js ''PM''"
  shows "applyMeridiem h (Some mer) = specMeridiemHour h mer"
proof -
  have ne: "mer \<noteq> []" using token_head [OF assms] by simp
  have neq: "js ''AM'' \<noteq> js ''PM''" by (simp add: js_def)
  show ?thesis using assms ne neq by (auto simp: applyMeridiem_def specMeridiemHour_def)
qed

lemma components_meridiem:
  assumes "toUpperCase mer = js ''AM'' \<or> toUpperCase mer = js ''PM''"
  shows "parseComponentsWithMeridiem e y mo d h mi s ms z (Some mer) =
           (case specMeridiemHour h mer of
              None \<Rightarrow> Inr None
            | Some H \<Rightarrow> parseComponentsWithMeridiem e y mo d H mi s ms z None)"
  unfolding parseComponentsWithMeridiem_def applyMeridiem_spec [OF assms]
  by (simp add: applyMeridiem_def split: option.splits)

lemma dash_meridiem:
  assumes ys: "length ys = 4" "list_all (inRanges digit) ys"
    and mo: "list_all (inRanges digit) mo" "1 \<le> length mo" "length mo \<le> 2"
    and ds: "list_all (inRanges digit) ds" "1 \<le> length ds" "length ds \<le> 2"
    and sep: "inRanges ([(84, 84), (116, 116)] @ space) sep"
    and tf: "timeFields hs mi sd c fd"
    and sp: "list_all (inRanges space) sp"
    and mer: "toUpperCase mer = js ''AM'' \<or> toUpperCase mer = js ''PM''"
  shows "parseDashDate e (ys @ 45 # mo @ 45 # ds @ sep # timeText hs mi sd c fd) z =
           parseComponentsWithMeridiem e (digitsToInt ys) (digitsToInt mo) (digitsToInt ds)
             (digitsToInt hs) (digitsToInt mi)
             (digitsToInt (case sd of None \<Rightarrow> js ''0'' | Some s \<Rightarrow> s))
             (parseFractionMilliseconds fd) z None"
    and "parseDashDate e (ys @ 45 # mo @ 45 # ds @ sep # timeText hs mi sd c fd @ sp @ mer) z =
           (case specMeridiemHour (digitsToInt hs) mer of
              None \<Rightarrow> Inr None
            | Some H \<Rightarrow>
                parseComponentsWithMeridiem e (digitsToInt ys) (digitsToInt mo) (digitsToInt ds)
                  H (digitsToInt mi)
                  (digitsToInt (case sd of None \<Rightarrow> js ''0'' | Some s \<Rightarrow> s))
                  (parseFractionMilliseconds fd) z None)"
proof -
  note o = dash_others [OF ys mo ds sep]
  have a: "rxMatch dateTimePattern (ys @ 45 # mo @ 45 # ds @ sep # timeText hs mi sd c fd @ [])
           = Some (\<lambda>x. if x = 6 then sd else if x = 7 then fd else if x = 8 then None
                        else [1 \<mapsto> ys, 2 \<mapsto> mo, 3 \<mapsto> ds, 4 \<mapsto> hs, 5 \<mapsto> mi] x)"
    by (rule dash_time_match [OF ys mo ds sep tf]) simp
  show "parseDashDate e (ys @ 45 # mo @ 45 # ds @ sep # timeText hs mi sd c fd) z =
           parseComponentsWithMeridiem e (digitsToInt ys) (digitsToInt mo) (digitsToInt ds)
             (digitsToInt hs) (digitsToInt mi)
             (digitsToInt (case sd of None \<Rightarrow> js ''0'' | Some s \<Rightarrow> s))
             (parseFractionMilliseconds fd) z None"
    using a unfolding parseDashDate_def o
    by (simp add: grp_def optDigits_def)
  have b: "rxMatch dateTimePattern (ys @ 45 # mo @ 45 # ds @ sep # timeText hs mi sd c fd @ sp @ mer)
           = Some (\<lambda>x. if x = 6 then sd else if x = 7 then fd else if x = 8 then Some mer
                        else [1 \<mapsto> ys, 2 \<mapsto> mo, 3 \<mapsto> ds, 4 \<mapsto> hs, 5 \<mapsto> mi] x)"
    using sp mer by (intro dash_time_match [OF ys mo ds sep tf]) auto
  show "parseDashDate e (ys @ 45 # mo @ 45 # ds @ sep # timeText hs mi sd c fd @ sp @ mer) z =
           (case specMeridiemHour (digitsToInt hs) mer of
              None \<Rightarrow> Inr None
            | Some H \<Rightarrow>
                parseComponentsWithMeridiem e (digitsToInt ys) (digitsToInt mo) (digitsToInt ds)
                  H (digitsToInt mi)
                  (digitsToInt (case sd of None \<Rightarrow> js ''0'' | Some s \<Rightarrow> s))
                  (parseFractionMilliseconds fd) z None)"
    unfolding parseDashDate_def o option.case b
    by (simp add: grp_def optDigits_def components_meridiem [OF mer])
qed

lemma tryAttempts_meridiem:
  assumes "toUpperCase mer = js ''AM'' \<or> toUpperCase mer = js ''PM''"
  shows "tryAttempts e as h mi s ms z (Some mer) =
           (case specMeridiemHour h mer of
              None \<Rightarrow> Inr None
            | Some H \<Rightarrow> tryAttempts e as H mi s ms z None)"
proof (induction as)
  case Nil
  then show ?case by (simp split: option.splits)
next
  case (Cons x as)
  obtain y m d where x: "x = (y, m, d)" by (cases x)
  show ?case
    unfolding x tryAttempts.simps components_meridiem [OF assms] Cons.IH
    by (simp split: option.splits)
qed

lemma slash_time_match:
  assumes a: "list_all (inRanges digit) a" "1 \<le> length a" "length a \<le> 4"
    and b: "list_all (inRanges digit) b" "1 \<le> length b" "length b \<le> 2"
    and c: "list_all (inRanges digit) c" "1 \<le> length c" "length c \<le> 4"
    and s1: "list_all (inRanges space) sp1" "sp1 \<noteq> []"
    and tf: "timeFields hs mi sd fc fd"
    and tl: "tail = [] \<and> cm = None
             \<or> (\<exists>sp mer. tail = sp @ mer \<and> cm = Some mer \<and> list_all (inRanges space) sp
                  \<and> (toUpperCase mer = js ''AM'' \<or> toUpperCase mer = js ''PM''))"
  shows "rxMatch slashPattern (a @ 47 # b @ 47 # c @ sp1 @ timeText hs mi sd fc fd @ tail)
           = Some (\<lambda>x. if x = 6 then sd else if x = 7 then fd else if x = 8 then cm
                        else [1 \<mapsto> a, 2 \<mapsto> b, 3 \<mapsto> c, 4 \<mapsto> hs, 5 \<mapsto> mi] x)"
proof -
  let ?t = "secsText sd @ fracText fc fd @ tail"
  let ?c3 = "[1 \<mapsto> a, 2 \<mapsto> b, 3 \<mapsto> c]"
  let ?c4 = "[1 \<mapsto> a, 2 \<mapsto> b, 3 \<mapsto> c, 4 \<mapsto> hs]"
  let ?c5 = "[1 \<mapsto> a, 2 \<mapsto> b, 3 \<mapsto> c, 4 \<mapsto> hs, 5 \<mapsto> mi]"
  let ?cf = "\<lambda>x. if x = 6 then sd else if x = 7 then fd else if x = 8 then cm else ?c5 x"
  have h: "list_all (inRanges digit) hs" "1 \<le> length hs" "length hs \<le> 2"
    "list_all (inRanges digit) mi" "length mi = 2"
    using tf by (auto simp: timeFields_def)
  have hs: "hs \<noteq> []" "inRanges digit (hd hs)" using h(1,2) by (cases hs; auto)+
  have s1h: "inRanges space (hd sp1)" using s1 by (cases sp1) auto
  have t: "leads (Cat (Opt (seq [ch 58, Grp 6 (Rep digit 2 (Some 2))]))
               (Cat (Opt (seq [oneOf ''.,'', Grp 7 (Rep digit 1 (Some 9))]))
               (Cat (Opt (seq [Rep space 0 None, Grp 8 meridiemPattern])) Eps)))
             (?c5, ?t) (?cf, [])"
    by (rule time_tail [OF tf tl leads_eps]) simp_all
  have g5: "leads (Grp 5 (Rep digit 2 (Some 2))) (?c4, mi @ ?t) (?c5, ?t)"
    using h by (intro leads_digits) auto
  have c4: "leads (ch 58) (?c4, 58 # mi @ ?t) (?c4, mi @ ?t)"
    unfolding ch_def by (intro leads_cls) simp
  have g4: "leads (Grp 4 (Rep digit 1 (Some 2))) (?c3, hs @ 58 # mi @ ?t) (?c4, 58 # mi @ ?t)"
    using h not_digit by (intro leads_digits) auto
  have sp: "leads (Rep space 1 None) (?c3, sp1 @ hs @ 58 # mi @ ?t) (?c3, hs @ 58 # mi @ ?t)"
    using s1 hs not_digit(6) by (intro leads_spaces) (auto simp: Suc_le_eq)
  have inner: "leads (Opt (seq [Rep space 1 None, Grp 4 (Rep digit 1 (Some 2)), ch 58,
                    Grp 5 (Rep digit 2 (Some 2)),
                    Opt (seq [ch 58, Grp 6 (Rep digit 2 (Some 2))]),
                    Opt (seq [oneOf ''.,'', Grp 7 (Rep digit 1 (Some 9))]),
                    Opt (seq [Rep space 0 None, Grp 8 meridiemPattern])]))
                (?c3, sp1 @ hs @ 58 # mi @ ?t) (?cf, [])"
  proof (rule leads_opt)
    have q: "seq [Rep space 1 None, Grp 4 (Rep digit 1 (Some 2)), ch 58,
                    Grp 5 (Rep digit 2 (Some 2)),
                    Opt (seq [ch 58, Grp 6 (Rep digit 2 (Some 2))]),
                    Opt (seq [oneOf ''.,'', Grp 7 (Rep digit 1 (Some 9))]),
                    Opt (seq [Rep space 0 None, Grp 8 meridiemPattern])]
             = Cat (Rep space 1 None) (Cat (Grp 4 (Rep digit 1 (Some 2))) (Cat (ch 58)
               (Cat (Grp 5 (Rep digit 2 (Some 2)))
               (Cat (Opt (seq [ch 58, Grp 6 (Rep digit 2 (Some 2))]))
               (Cat (Opt (seq [oneOf ''.,'', Grp 7 (Rep digit 1 (Some 9))]))
               (Cat (Opt (seq [Rep space 0 None, Grp 8 meridiemPattern])) Eps))))))"
      by (simp add: seq_def)
    show "leads (seq [Rep space 1 None, Grp 4 (Rep digit 1 (Some 2)), ch 58,
                    Grp 5 (Rep digit 2 (Some 2)),
                    Opt (seq [ch 58, Grp 6 (Rep digit 2 (Some 2))]),
                    Opt (seq [oneOf ''.,'', Grp 7 (Rep digit 1 (Some 9))]),
                    Opt (seq [Rep space 0 None, Grp 8 meridiemPattern])])
            (?c3, sp1 @ hs @ 58 # mi @ ?t) (?cf, [])"
      unfolding q
      by (intro leads_cat [OF sp] leads_cat [OF g4] leads_cat [OF c4] leads_cat [OF g5] t)
  qed
  have e: "leads (Cat Eos Eps) (?cf, []) (?cf, [])" by (rule leads_cat [OF leads_eos leads_eps])
  have g3: "leads (Grp 3 (Rep digit 1 (Some 4))) ([1 \<mapsto> a, 2 \<mapsto> b], c @ sp1 @ hs @ 58 # mi @ ?t)
              (?c3, sp1 @ hs @ 58 # mi @ ?t)"
    using c s1 s1h not_digit(6) by (intro leads_digits) auto
  have c2: "leads (ch 47) ([1 \<mapsto> a, 2 \<mapsto> b], 47 # c @ sp1 @ hs @ 58 # mi @ ?t)
              ([1 \<mapsto> a, 2 \<mapsto> b], c @ sp1 @ hs @ 58 # mi @ ?t)"
    unfolding ch_def by (intro leads_cls) simp
  have g2: "leads (Grp 2 (Rep digit 1 (Some 2))) ([1 \<mapsto> a], b @ 47 # c @ sp1 @ hs @ 58 # mi @ ?t)
              ([1 \<mapsto> a, 2 \<mapsto> b], 47 # c @ sp1 @ hs @ 58 # mi @ ?t)"
    using b not_digit by (intro leads_digits) auto
  have c1: "leads (ch 47) ([1 \<mapsto> a], 47 # b @ 47 # c @ sp1 @ hs @ 58 # mi @ ?t)
              ([1 \<mapsto> a], b @ 47 # c @ sp1 @ hs @ 58 # mi @ ?t)"
    unfolding ch_def by (intro leads_cls) simp
  have g1: "leads (Grp 1 (Rep digit 1 (Some 4))) (Map.empty, a @ 47 # b @ 47 # c @ sp1 @ hs @ 58 # mi @ ?t)
              ([1 \<mapsto> a], 47 # b @ 47 # c @ sp1 @ hs @ 58 # mi @ ?t)"
    using a not_digit by (intro leads_digits) auto
  have p: "slashPattern =
      Cat (Grp 1 (Rep digit 1 (Some 4))) (Cat (ch 47) (Cat (Grp 2 (Rep digit 1 (Some 2)))
      (Cat (ch 47) (Cat (Grp 3 (Rep digit 1 (Some 4))) 
      (Cat (Opt (seq [Rep space 1 None, Grp 4 (Rep digit 1 (Some 2)), ch 58,
                    Grp 5 (Rep digit 2 (Some 2)),
                    Opt (seq [ch 58, Grp 6 (Rep digit 2 (Some 2))]),
                    Opt (seq [oneOf ''.,'', Grp 7 (Rep digit 1 (Some 9))]),
                    Opt (seq [Rep space 0 None, Grp 8 meridiemPattern])]))
      (Cat Eos Eps))))))"
    by (simp add: slashPattern_def seq_def)
  have "leads slashPattern (Map.empty, a @ 47 # b @ 47 # c @ sp1 @ hs @ 58 # mi @ ?t) (?cf, [])"
    unfolding p
    by (intro leads_cat [OF g1] leads_cat [OF c1] leads_cat [OF g2] leads_cat [OF c2]
        leads_cat [OF g3] leads_cat [OF inner] e)
  from rxMatch_leads [OF this] show ?thesis by (simp add: timeText_def)
qed

lemma slash_meridiem:
  assumes a: "list_all (inRanges digit) a" "1 \<le> length a" "length a \<le> 4"
    and b: "list_all (inRanges digit) b" "1 \<le> length b" "length b \<le> 2"
    and c: "list_all (inRanges digit) c" "1 \<le> length c" "length c \<le> 4"
    and s1: "list_all (inRanges space) sp1" "sp1 \<noteq> []"
    and tf: "timeFields hs mi sd fc fd"
    and sp: "list_all (inRanges space) sp"
    and mer: "toUpperCase mer = js ''AM'' \<or> toUpperCase mer = js ''PM''"
  shows "parseSlashDate e (a @ 47 # b @ 47 # c @ sp1 @ timeText hs mi sd fc fd) z =
           tryAttempts e (slashAttempts a b c) (digitsToInt hs) (digitsToInt mi)
             (digitsToInt (case sd of None \<Rightarrow> js ''0'' | Some s \<Rightarrow> s))
             (parseFractionMilliseconds fd) z None"
    and "parseSlashDate e (a @ 47 # b @ 47 # c @ sp1 @ timeText hs mi sd fc fd @ sp @ mer) z =
           (case specMeridiemHour (digitsToInt hs) mer of
              None \<Rightarrow> Inr None
            | Some H \<Rightarrow>
                tryAttempts e (slashAttempts a b c) H (digitsToInt mi)
                  (digitsToInt (case sd of None \<Rightarrow> js ''0'' | Some s \<Rightarrow> s))
                  (parseFractionMilliseconds fd) z None)"
proof -
  have x: "rxMatch slashPattern (a @ 47 # b @ 47 # c @ sp1 @ timeText hs mi sd fc fd @ [])
           = Some (\<lambda>x. if x = 6 then sd else if x = 7 then fd else if x = 8 then None
                        else [1 \<mapsto> a, 2 \<mapsto> b, 3 \<mapsto> c, 4 \<mapsto> hs, 5 \<mapsto> mi] x)"
    by (rule slash_time_match [OF a b c s1 tf]) simp
  show "parseSlashDate e (a @ 47 # b @ 47 # c @ sp1 @ timeText hs mi sd fc fd) z =
           tryAttempts e (slashAttempts a b c) (digitsToInt hs) (digitsToInt mi)
             (digitsToInt (case sd of None \<Rightarrow> js ''0'' | Some s \<Rightarrow> s))
             (parseFractionMilliseconds fd) z None"
    using x unfolding parseSlashDate_def
    by (simp add: grp_def optDigits_def Let_def)
  have y: "rxMatch slashPattern (a @ 47 # b @ 47 # c @ sp1 @ timeText hs mi sd fc fd @ sp @ mer)
           = Some (\<lambda>x. if x = 6 then sd else if x = 7 then fd else if x = 8 then Some mer
                        else [1 \<mapsto> a, 2 \<mapsto> b, 3 \<mapsto> c, 4 \<mapsto> hs, 5 \<mapsto> mi] x)"
    using sp mer by (intro slash_time_match [OF a b c s1 tf]) auto
  show "parseSlashDate e (a @ 47 # b @ 47 # c @ sp1 @ timeText hs mi sd fc fd @ sp @ mer) z =
           (case specMeridiemHour (digitsToInt hs) mer of
              None \<Rightarrow> Inr None
            | Some H \<Rightarrow>
                tryAttempts e (slashAttempts a b c) H (digitsToInt mi)
                  (digitsToInt (case sd of None \<Rightarrow> js ''0'' | Some s \<Rightarrow> s))
                  (parseFractionMilliseconds fd) z None)"
    unfolding parseSlashDate_def y option.case
    by (simp add: grp_def optDigits_def Let_def tryAttempts_meridiem [OF mer])
qed

lemma month_time_match:
  assumes mon: "list_all (inRanges alpha) mon" "3 \<le> length mon" "length mon \<le> 9"
    and s1: "list_all (inRanges space) sp1" "sp1 \<noteq> []"
    and ds: "list_all (inRanges digit) ds" "1 \<le> length ds" "length ds \<le> 2"
    and s2: "list_all (inRanges space) sp2"
    and ys: "length ys = 4" "list_all (inRanges digit) ys"
    and s3: "list_all (inRanges space) sp3" "sp3 \<noteq> []"
    and hs: "list_all (inRanges digit) hs" "1 \<le> length hs" "length hs \<le> 2"
    and mi: "list_all (inRanges digit) mi" "length mi = 2"
    and sd: "list_all (inRanges digit) sd" "length sd = 2"
    and s4: "list_all (inRanges space) sp4"
    and mer: "toUpperCase mer = js ''AM'' \<or> toUpperCase mer = js ''PM''"
  shows "rxMatch monthNamePattern (mon @ sp1 @ ds @ 44 # sp2 @ ys) = Some [1 \<mapsto> mon, 2 \<mapsto> ds, 3 \<mapsto> ys]"
    and "rxMatch monthNamePattern (mon @ sp1 @ ds @ 44 # sp2 @ ys @ sp3 @ hs @ 58 # mi @ 58 # sd @ sp4 @ mer)
           = Some [1 \<mapsto> mon, 2 \<mapsto> ds, 3 \<mapsto> ys, 4 \<mapsto> hs, 5 \<mapsto> mi, 6 \<mapsto> sd, 7 \<mapsto> mer]"
proof -
  let ?c3 = "[1 \<mapsto> mon, 2 \<mapsto> ds, 3 \<mapsto> ys]"
  let ?cf = "[1 \<mapsto> mon, 2 \<mapsto> ds, 3 \<mapsto> ys, 4 \<mapsto> hs, 5 \<mapsto> mi, 6 \<mapsto> sd, 7 \<mapsto> mer]"
  let ?inner = "seq [Rep space 1 None, Grp 4 (Rep digit 1 (Some 2)), ch 58,
                    Grp 5 (Rep digit 2 (Some 2)), ch 58, Grp 6 (Rep digit 2 (Some 2)),
                    Rep space 0 None, Grp 7 meridiemPattern]"
  have p: "monthNamePattern =
      Cat (Grp 1 (Rep alpha 3 (Some 9))) (Cat (Rep space 1 None) (Cat (Grp 2 (Rep digit 1 (Some 2)))
      (Cat (ch 44) (Cat (Rep space 0 None) (Cat (Grp 3 (Rep digit 4 (Some 4)))
      (Cat (Opt ?inner) (Cat Eos Eps)))))))"
    by (simp add: monthNamePattern_def seq_def)
  have q: "?inner = Cat (Rep space 1 None) (Cat (Grp 4 (Rep digit 1 (Some 2))) (Cat (ch 58)
             (Cat (Grp 5 (Rep digit 2 (Some 2))) (Cat (ch 58) (Cat (Grp 6 (Rep digit 2 (Some 2)))
             (Cat (Rep space 0 None) (Cat (Grp 7 meridiemPattern) Eps)))))))"
    by (simp add: seq_def)
  have na: "\<And>x. inRanges space x \<Longrightarrow> \<not> inRanges alpha x"
    "\<And>x. inRanges digit x \<Longrightarrow> \<not> inRanges space x" "\<not> inRanges digit 44"
    by (auto simp: space_def alpha_def digit_def)
  have h1: "inRanges space (hd sp1)" using s1 by (cases sp1) auto
  have h3: "inRanges space (hd sp3)" using s3 by (cases sp3) auto
  have hd: "ds \<noteq> []" "inRanges digit (hd ds)" using ds(1,2) by (cases ds; auto)+
  have hy: "ys \<noteq> []" "inRanges digit (hd ys)" using ys by (cases ys; auto)+
  have hh: "hs \<noteq> []" "inRanges digit (hd hs)" using hs(1,2) by (cases hs; auto)+
  have date: "leads (Grp 1 (Rep alpha 3 (Some 9))) (Map.empty, mon @ sp1 @ ds @ 44 # sp2 @ ys @ rest)
                 ([1 \<mapsto> mon], sp1 @ ds @ 44 # sp2 @ ys @ rest)"
    "leads (Rep space 1 None) ([1 \<mapsto> mon], sp1 @ ds @ 44 # sp2 @ ys @ rest)
                 ([1 \<mapsto> mon], ds @ 44 # sp2 @ ys @ rest)"
    "leads (Grp 2 (Rep digit 1 (Some 2))) ([1 \<mapsto> mon], ds @ 44 # sp2 @ ys @ rest)
                 ([1 \<mapsto> mon, 2 \<mapsto> ds], 44 # sp2 @ ys @ rest)"
    "leads (ch 44) ([1 \<mapsto> mon, 2 \<mapsto> ds], 44 # sp2 @ ys @ rest)
                 ([1 \<mapsto> mon, 2 \<mapsto> ds], sp2 @ ys @ rest)"
    "leads (Rep space 0 None) ([1 \<mapsto> mon, 2 \<mapsto> ds], sp2 @ ys @ rest)
                 ([1 \<mapsto> mon, 2 \<mapsto> ds], ys @ rest)"
    "leads (Grp 3 (Rep digit 4 (Some 4))) ([1 \<mapsto> mon, 2 \<mapsto> ds], ys @ rest) (?c3, rest)"
    for rest
  proof -
    show "leads (Grp 1 (Rep alpha 3 (Some 9))) (Map.empty, mon @ sp1 @ ds @ 44 # sp2 @ ys @ rest)
                 ([1 \<mapsto> mon], sp1 @ ds @ 44 # sp2 @ ys @ rest)"
      using mon s1 h1 na(1) by (intro leads_grp leads_rep) auto
    show "leads (Rep space 1 None) ([1 \<mapsto> mon], sp1 @ ds @ 44 # sp2 @ ys @ rest)
                 ([1 \<mapsto> mon], ds @ 44 # sp2 @ ys @ rest)"
      using s1 hd na(2) by (intro leads_spaces) (auto simp: Suc_le_eq)
    show "leads (Grp 2 (Rep digit 1 (Some 2))) ([1 \<mapsto> mon], ds @ 44 # sp2 @ ys @ rest)
                 ([1 \<mapsto> mon, 2 \<mapsto> ds], 44 # sp2 @ ys @ rest)"
      using ds na(3) by (intro leads_digits) auto
    show "leads (ch 44) ([1 \<mapsto> mon, 2 \<mapsto> ds], 44 # sp2 @ ys @ rest)
                 ([1 \<mapsto> mon, 2 \<mapsto> ds], sp2 @ ys @ rest)"
      unfolding ch_def by (intro leads_cls) simp
    show "leads (Rep space 0 None) ([1 \<mapsto> mon, 2 \<mapsto> ds], sp2 @ ys @ rest)
                 ([1 \<mapsto> mon, 2 \<mapsto> ds], ys @ rest)"
      using s2 hy na(2) by (intro leads_spaces) auto
    show "leads (Grp 3 (Rep digit 4 (Some 4))) ([1 \<mapsto> mon, 2 \<mapsto> ds], ys @ rest) (?c3, rest)"
      using ys by (intro leads_digits) auto
  qed
  have e: "leads (Cat Eos Eps) (c, []) (c, [])" for c by (rule leads_cat [OF leads_eos leads_eps])
  have skip: "leads (Cat (Opt ?inner) (Cat Eos Eps)) (?c3, []) (?c3, [])"
    by (intro leads_skip e) (simp add: seq_def)
  have "leads monthNamePattern (Map.empty, mon @ sp1 @ ds @ 44 # sp2 @ ys @ []) (?c3, [])"
    unfolding p
    by (intro leads_cat [OF date(1)] leads_cat [OF date(2)] leads_cat [OF date(3)]
        leads_cat [OF date(4)] leads_cat [OF date(5)] leads_cat [OF date(6)] skip)
  from rxMatch_leads [OF this]
  show "rxMatch monthNamePattern (mon @ sp1 @ ds @ 44 # sp2 @ ys) = Some ?c3" by simp
  let ?r = "sp3 @ hs @ 58 # mi @ 58 # sd @ sp4 @ mer"
  have t: "leads (Rep space 1 None) (?c3, sp3 @ hs @ 58 # mi @ 58 # sd @ sp4 @ mer)
             (?c3, hs @ 58 # mi @ 58 # sd @ sp4 @ mer)"
    "leads (Grp 4 (Rep digit 1 (Some 2))) (?c3, hs @ 58 # mi @ 58 # sd @ sp4 @ mer)
             (?c3(4 \<mapsto> hs), 58 # mi @ 58 # sd @ sp4 @ mer)"
    "leads (ch 58) (?c3(4 \<mapsto> hs), 58 # mi @ 58 # sd @ sp4 @ mer)
             (?c3(4 \<mapsto> hs), mi @ 58 # sd @ sp4 @ mer)"
    "leads (Grp 5 (Rep digit 2 (Some 2))) (?c3(4 \<mapsto> hs), mi @ 58 # sd @ sp4 @ mer)
             (?c3(4 \<mapsto> hs, 5 \<mapsto> mi), 58 # sd @ sp4 @ mer)"
    "leads (ch 58) (?c3(4 \<mapsto> hs, 5 \<mapsto> mi), 58 # sd @ sp4 @ mer)
             (?c3(4 \<mapsto> hs, 5 \<mapsto> mi), sd @ sp4 @ mer)"
    "leads (Grp 6 (Rep digit 2 (Some 2))) (?c3(4 \<mapsto> hs, 5 \<mapsto> mi), sd @ sp4 @ mer)
             (?c3(4 \<mapsto> hs, 5 \<mapsto> mi, 6 \<mapsto> sd), sp4 @ mer)"
    "leads (Rep space 0 None) (?c3(4 \<mapsto> hs, 5 \<mapsto> mi, 6 \<mapsto> sd), sp4 @ mer)
             (?c3(4 \<mapsto> hs, 5 \<mapsto> mi, 6 \<mapsto> sd), mer)"
    "leads (Grp 7 meridiemPattern) (?c3(4 \<mapsto> hs, 5 \<mapsto> mi, 6 \<mapsto> sd), mer) (?cf, [])"
  proof -
    show "leads (Rep space 1 None) (?c3, sp3 @ hs @ 58 # mi @ 58 # sd @ sp4 @ mer)
             (?c3, hs @ 58 # mi @ 58 # sd @ sp4 @ mer)"
      using s3 hh na(2) by (intro leads_spaces) (auto simp: Suc_le_eq)
    show "leads (Grp 4 (Rep digit 1 (Some 2))) (?c3, hs @ 58 # mi @ 58 # sd @ sp4 @ mer)
             (?c3(4 \<mapsto> hs), 58 # mi @ 58 # sd @ sp4 @ mer)"
      using hs not_digit by (intro leads_digits) auto
    show "leads (ch 58) (?c3(4 \<mapsto> hs), 58 # mi @ 58 # sd @ sp4 @ mer)
             (?c3(4 \<mapsto> hs), mi @ 58 # sd @ sp4 @ mer)"
      unfolding ch_def by (intro leads_cls) simp
    show "leads (Grp 5 (Rep digit 2 (Some 2))) (?c3(4 \<mapsto> hs), mi @ 58 # sd @ sp4 @ mer)
             (?c3(4 \<mapsto> hs, 5 \<mapsto> mi), 58 # sd @ sp4 @ mer)"
      using mi by (intro leads_digits) auto
    show "leads (ch 58) (?c3(4 \<mapsto> hs, 5 \<mapsto> mi), 58 # sd @ sp4 @ mer)
             (?c3(4 \<mapsto> hs, 5 \<mapsto> mi), sd @ sp4 @ mer)"
      unfolding ch_def by (intro leads_cls) simp
    show "leads (Grp 6 (Rep digit 2 (Some 2))) (?c3(4 \<mapsto> hs, 5 \<mapsto> mi), sd @ sp4 @ mer)
             (?c3(4 \<mapsto> hs, 5 \<mapsto> mi, 6 \<mapsto> sd), sp4 @ mer)"
      using sd by (intro leads_digits) auto
    show "leads (Rep space 0 None) (?c3(4 \<mapsto> hs, 5 \<mapsto> mi, 6 \<mapsto> sd), sp4 @ mer)
             (?c3(4 \<mapsto> hs, 5 \<mapsto> mi, 6 \<mapsto> sd), mer)"
      using s4 token_head [OF mer] by (intro leads_spaces) auto
    show "leads (Grp 7 meridiemPattern) (?c3(4 \<mapsto> hs, 5 \<mapsto> mi, 6 \<mapsto> sd), mer) (?cf, [])"
      using leads_meridiem [OF mer, of 7 "?c3(4 \<mapsto> hs, 5 \<mapsto> mi, 6 \<mapsto> sd)" "[]"] by simp
  qed
  have inner: "leads (Opt ?inner) (?c3, ?r) (?cf, [])"
    unfolding q
    by (intro leads_opt leads_cat [OF t(1)] leads_cat [OF t(2)] leads_cat [OF t(3)]
        leads_cat [OF t(4)] leads_cat [OF t(5)] leads_cat [OF t(6)] leads_cat [OF t(7)]
        leads_cat [OF t(8)] leads_eps)
  have "leads monthNamePattern (Map.empty, mon @ sp1 @ ds @ 44 # sp2 @ ys @ ?r) (?cf, [])"
    unfolding p
    by (intro leads_cat [OF date(1)] leads_cat [OF date(2)] leads_cat [OF date(3)]
        leads_cat [OF date(4)] leads_cat [OF date(5)] leads_cat [OF date(6)]
        leads_cat [OF inner] e)
  from rxMatch_leads [OF this]
  show "rxMatch monthNamePattern (mon @ sp1 @ ds @ 44 # sp2 @ ys @ sp3 @ hs @ 58 # mi @ 58 # sd @ sp4 @ mer)
           = Some ?cf" .
qed

lemma monthName_meridiem:
  assumes mon: "list_all (inRanges alpha) mon" "3 \<le> length mon" "length mon \<le> 9"
    and s1: "list_all (inRanges space) sp1" "sp1 \<noteq> []"
    and ds: "list_all (inRanges digit) ds" "1 \<le> length ds" "length ds \<le> 2"
    and s2: "list_all (inRanges space) sp2"
    and ys: "length ys = 4" "list_all (inRanges digit) ys"
    and s3: "list_all (inRanges space) sp3" "sp3 \<noteq> []"
    and hs: "list_all (inRanges digit) hs" "1 \<le> length hs" "length hs \<le> 2"
    and mi: "list_all (inRanges digit) mi" "length mi = 2"
    and sd: "list_all (inRanges digit) sd" "length sd = 2"
    and s4: "list_all (inRanges space) sp4"
    and mer: "toUpperCase mer = js ''AM'' \<or> toUpperCase mer = js ''PM''"
    and tok: "parseMonthToken mon = Some month"
  shows "parseMonthNameDate e (mon @ sp1 @ ds @ 44 # sp2 @ ys) z =
           parseComponentsWithMeridiem e (digitsToInt ys) month (digitsToInt ds) 0 0 0 0 z None"
    and "parseMonthNameDate e (mon @ sp1 @ ds @ 44 # sp2 @ ys @ sp3 @ hs @ 58 # mi @ 58 # sd @ sp4 @ mer) z =
           (case specMeridiemHour (digitsToInt hs) mer of
              None \<Rightarrow> Inr None
            | Some H \<Rightarrow>
                parseComponentsWithMeridiem e (digitsToInt ys) month (digitsToInt ds)
                  H (digitsToInt mi) (digitsToInt sd) 0 z None)"
proof -
  note m = month_time_match [OF mon s1 ds s2 ys s3 hs mi sd s4 mer]
  have h: "mon \<noteq> []" "\<not> inRanges space (hd mon)"
    using mon(1,2) by (cases mon; auto simp: alpha_def space_def)+
  have ly: "ys \<noteq> []" "\<not> inRanges space (last ys)"
  proof -
    show "ys \<noteq> []" using ys(1) by auto
    then have "last ys \<in> set ys" by simp
    then have "inRanges digit (last ys)" using ys(2) by (simp add: list_all_iff)
    then show "\<not> inRanges space (last ys)" by (auto simp: digit_def space_def)
  qed
  have t1: "trim (mon @ sp1 @ ds @ 44 # sp2 @ ys) = mon @ sp1 @ ds @ 44 # sp2 @ ys"
    using h ly by (intro trim_id) auto
  have t2: "trim (mon @ sp1 @ ds @ 44 # sp2 @ ys @ sp3 @ hs @ 58 # mi @ 58 # sd @ sp4 @ mer)
            = mon @ sp1 @ ds @ 44 # sp2 @ ys @ sp3 @ hs @ 58 # mi @ 58 # sd @ sp4 @ mer"
    using h token_head [OF mer] by (intro trim_id) auto
  show "parseMonthNameDate e (mon @ sp1 @ ds @ 44 # sp2 @ ys) z =
           parseComponentsWithMeridiem e (digitsToInt ys) month (digitsToInt ds) 0 0 0 0 z None"
    unfolding parseMonthNameDate_def t1 m(1) option.case
    by (simp add: grp_def optDigits_def tok digitsToInt_def js_def)
  show "parseMonthNameDate e (mon @ sp1 @ ds @ 44 # sp2 @ ys @ sp3 @ hs @ 58 # mi @ 58 # sd @ sp4 @ mer) z =
           (case specMeridiemHour (digitsToInt hs) mer of
              None \<Rightarrow> Inr None
            | Some H \<Rightarrow>
                parseComponentsWithMeridiem e (digitsToInt ys) month (digitsToInt ds)
                  H (digitsToInt mi) (digitsToInt sd) 0 z None)"
    unfolding parseMonthNameDate_def t2 m(2) option.case
    by (simp add: grp_def optDigits_def tok components_meridiem [OF mer])
qed

lemma components_none:
  "parseComponentsWithMeridiem e y mo d h mi s ms z None =
     buildDateFromComponents e
       \<lparr>cyear = y, cmonth = mo, cday = d, chour = Some h, cminute = Some mi,
        csecond = Some s, cmillisecond = Some ms\<rparr> z"
  by (simp add: parseComponentsWithMeridiem_def applyMeridiem_def)

text \<open>
  C10, for the three parsers that take a meridiem. The dash parser on a date, a
  separator and a time of day builds the date from the hour as written; followed by a
  meridiem AM or PM in any letter case, after any white space, it declines when the hour
  is outside 1..12, and else builds the date from the hour 0 for 12 AM, 12 for 12 PM,
  the hour plus 12 for 1..11 PM and the hour itself for 1..11 AM
  (\<open>specMeridiemHour\<close>). The slash parser does the same on each of its
  interpretations of \<open>A/B/C\<close>. The month-name parser, whose time of day always ends in
  a meridiem, does the same, and builds hour 0 for a date without a time.
\<close>

theorem meridiem_parsers:
  assumes ys: "length ys = 4" "list_all (inRanges digit) ys"
    and mo: "list_all (inRanges digit) mo" "1 \<le> length mo" "length mo \<le> 2"
    and ds: "list_all (inRanges digit) ds" "1 \<le> length ds" "length ds \<le> 2"
    and sep: "inRanges ([(84, 84), (116, 116)] @ space) sep"
    and a: "list_all (inRanges digit) a" "1 \<le> length a" "length a \<le> 4"
    and b: "list_all (inRanges digit) b" "1 \<le> length b" "length b \<le> 2"
    and c: "list_all (inRanges digit) c" "1 \<le> length c" "length c \<le> 4"
    and mon: "list_all (inRanges alpha) mon" "3 \<le> length mon" "length mon \<le> 9"
      "parseMonthToken mon = Some month"
    and s1: "list_all (inRanges space) sp1" "sp1 \<noteq> []"
    and s2: "list_all (inRanges space) sp2"
    and tf: "timeFields hs mi sd fc fd"
    and ss: "list_all (inRanges digit) ss" "length ss = 2"
    and sp: "list_all (inRanges space) sp"
    and mer: "toUpperCase mer = js ''AM'' \<or> toUpperCase mer = js ''PM''"
  shows
    "parseDashDate e (ys @ 45 # mo @ 45 # ds @ sep # timeText hs mi sd fc fd) z =
       buildDateFromComponents e
         \<lparr>cyear = digitsToInt ys, cmonth = digitsToInt mo, cday = digitsToInt ds,
          chour = Some (digitsToInt hs), cminute = Some (digitsToInt mi),
          csecond = Some (digitsToInt (case sd of None \<Rightarrow> js ''0'' | Some s \<Rightarrow> s)),
          cmillisecond = Some (parseFractionMilliseconds fd)\<rparr> z
     \<and> parseDashDate e (ys @ 45 # mo @ 45 # ds @ sep # timeText hs mi sd fc fd @ sp @ mer) z =
       (case specMeridiemHour (digitsToInt hs) mer of
          None \<Rightarrow> Inr None
        | Some H \<Rightarrow>
            buildDateFromComponents e
              \<lparr>cyear = digitsToInt ys, cmonth = digitsToInt mo, cday = digitsToInt ds,
               chour = Some H, cminute = Some (digitsToInt mi),
               csecond = Some (digitsToInt (case sd of None \<Rightarrow> js ''0'' | Some s \<Rightarrow> s)),
               cmillisecond = Some (parseFractionMilliseconds fd)\<rparr> z)
     \<and> parseSlashDate e (a @ 47 # b @ 47 # c @ sp1 @ timeText hs mi sd fc fd) z =
       tryAttempts e (slashAttempts a b c) (digitsToInt hs) (digitsToInt mi)
         (digitsToInt (case sd of None \<Rightarrow> js ''0'' | Some s \<Rightarrow> s))
         (parseFractionMilliseconds fd) z None
     \<and> parseSlashDate e (a @ 47 # b @ 47 # c @ sp1 @ timeText hs mi sd fc fd @ sp @ mer) z =
       (case specMeridiemHour (digitsToInt hs) mer of
          None \<Rightarrow> Inr None
        | Some H \<Rightarrow>
            tryAttempts e (slashAttempts a b c) H (digitsToInt mi)
              (digitsToInt (case sd of None \<Rightarrow> js ''0'' | Some s \<Rightarrow> s))
              (parseFractionMilliseconds fd) z None)
     \<and> parseMonthNameDate e (mon @ sp1 @ ds @ 44 # sp2 @ ys) z =
       buildDateFromComponents e
         \<lparr>cyear = digitsToInt ys, cmonth = month, cday = digitsToInt ds,
          chour = Some 0, cminute = Some 0, csecond = Some 0, cmillisecond = Some 0\<rparr> z
     \<and> parseMonthNameDate e
         (mon @ sp1 @ ds @ 44 # sp2 @ ys @ sp1 @ hs @ 58 # mi @ 58 # ss @ sp @ mer) z =
       (case specMeridiemHour (digitsToInt hs) mer of
          None \<Rightarrow> Inr None
        | Some H \<Rightarrow>
            buildDateFromComponents e
              \<lparr>cyear = digitsToInt ys, cmonth = month, cday = digitsToInt ds,
               chour = Some H, cminute = Some (digitsToInt mi),
               csecond = Some (digitsToInt ss), cmillisecond = Some 0\<rparr> z)
     \<and> (\<forall>y m d H n s ms.
          tryAttempts e [(y, m, d)] H n s ms z None =
            buildDateFromComponents e
              \<lparr>cyear = y, cmonth = m, cday = d, chour = Some H, cminute = Some n,
               csecond = Some s, cmillisecond = Some ms\<rparr> z)"
proof -
  have h: "list_all (inRanges digit) hs" "1 \<le> length hs" "length hs \<le> 2"
    "list_all (inRanges digit) mi" "length mi = 2"
    using tf by (auto simp: timeFields_def)
  note d = dash_meridiem [OF ys mo ds sep tf sp mer, of e z]
  note s = slash_meridiem [OF a b c s1 tf sp mer, of e z]
  note m = monthName_meridiem [OF mon(1-3) s1 ds s2 ys s1 h ss sp mer mon(4), of e z]
  have t: "tryAttempts e [(y, m, d)] H n s ms z None =
            buildDateFromComponents e
              \<lparr>cyear = y, cmonth = m, cday = d, chour = Some H, cminute = Some n,
               csecond = Some s, cmillisecond = Some ms\<rparr> z" for y m d H n s ms
    by (simp add: components_none split: sum.splits option.splits)
  show ?thesis
    unfolding d s m components_none using t by (simp only: simp_thms)
qed

text \<open>
  The three parsers on 30 January 2019 at 12:30 am, 13:30 PM and 8:30:15 Pm, in UTC.
\<close>

theorem meridiem_parsers_witness:
  "timeFields (js ''12'') (js ''30'') None 46 None
   \<and> specMeridiemHour 12 (js ''am'') = Some 0
   \<and> specMeridiemHour 12 (js ''PM'') = Some 12
   \<and> specMeridiemHour 13 (js ''PM'') = None
   \<and> specMeridiemHour 8 (js ''Pm'') = Some 20
   \<and> parseDashDate utcEnv (js ''2019-01-30 12:30'') (Fixed 0 (js ''UTC'')) = Inr (Some (Num 1548851400000))
   \<and> parseDashDate utcEnv (js ''2019-01-30 12:30 am'') (Fixed 0 (js ''UTC'')) = Inr (Some (Num 1548808200000))
   \<and> parseSlashDate utcEnv (js ''1/30/2019 12:30 am'') (Fixed 0 (js ''UTC'')) = Inr (Some (Num 1548808200000))
   \<and> parseMonthNameDate utcEnv (js ''Jan 30, 2019 12:30:15 am'') (Fixed 0 (js ''UTC''))
       = Inr (Some (Num 1548808215000))
   \<and> parseDashDate utcEnv (js ''2019-01-30 13:30 PM'') (Fixed 0 (js ''UTC'')) = Inr None
   \<and> parseSlashDate utcEnv (js ''1/30/2019 13:30 PM'') (Fixed 0 (js ''UTC'')) = Inr None
   \<and> parseMonthNameDate utcEnv (js ''Jan 30, 2019 13:30:15 PM'') (Fixed 0 (js ''UTC'')) = Inr None
   \<and> parseDashDate utcEnv (js ''2019-01-30 8:30:15.5Pm'') (Fixed 0 (js ''UTC''))
       = Inr (Some (Num 1548880215500))
   \<and> parseSlashDate utcEnv (js ''1/30/2019 8:30:15.5Pm'') (Fixed 0 (js ''UTC''))
       = Inr (Some (Num 1548880215500))
   \<and> parseMonthNameDate utcEnv (js ''Jan 30, 2019 8:30:15Pm'') (Fixed 0 (js ''UTC''))
       = Inr (Some (Num 1548880215000))"
  using meridiem_parsers [where e = utcEnv and z = "Fixed 0 (js ''UTC'')"
      and ys = "js ''2019''" and mo = "js ''01''" and ds = "js ''30''" and sep = 32
      and a = "js ''1''" and b = "js ''30''" and c = "js ''2019''"
      and mon = "js ''Jan''" and month = 1 and ?sp1.0 = "js '' ''" and ?sp2.0 = "js '' ''"
      and hs = "js ''12''" and mi = "js ''30''" and sd = None and fc = 46 and fd = None
      and ss = "js ''15''" and sp = "js '' ''" and mer = "js ''am''"]
    meridiem_parsers [where e = utcEnv and z = "Fixed 0 (js ''UTC'')"
      and ys = "js ''2019''" and mo = "js ''01''" and ds = "js ''30''" and sep = 32
      and a = "js ''1''" and b = "js ''30''" and c = "js ''2019''"
      and mon = "js ''Jan''" and month = 1 and ?sp1.0 = "js '' ''" and ?sp2.0 = "js '' ''"
      and hs = "js ''13''" and mi = "js ''30''" and sd = None and fc = 46 and fd = None
      and ss = "js ''15''" and sp = "js '' ''" and mer = "js ''PM''"]
    meridiem_parsers [where e = utcEnv and z = "Fixed 0 (js ''UTC'')"
      and ys = "js ''2019''" and mo = "js ''01''" and ds = "js ''30''" and sep = 32
      and a = "js ''1''" and b = "js ''30''" and c = "js ''2019''"
      and mon = "js ''Jan''" and month = 1 and ?sp1.0 = "js '' ''" and ?sp2.0 = "js '' ''"
      and hs = "js ''8''" and mi = "js ''30''" and sd = "Some (js ''15'')" and fc = 46
      and fd = "Some (js ''5'')" and ss = "js ''15''" and sp = "[]" and mer = "js ''Pm''"]
  by (simp add: ev timeFields_def timeText_def secsText_def fracText_def specMeridiemHour_def
      parseMonthToken_def monthMap_def parseMonthNameDate_def monthNamePattern_def
      cong: let_weak_cong)

section \<open>Every input gives a result\<close>

lemma rep_consumed:
  "(p', t) \<in> set (rep rs m n p s) \<Longrightarrow>
     \<exists>x. s = x @ t \<and> list_all (inRanges rs) x \<and> (\<forall>b. n = Some b \<longrightarrow> length x \<le> b)"
proof (induction s arbitrary: m n p)
  case Nil
  then show ?case by (auto split: if_splits)
next
  case (Cons c s)
  from Cons.prems consider
    (step) "n \<noteq> Some 0" "inRanges rs c"
      "(p', t) \<in> set (rep rs (m - 1) (map_option (\<lambda>k. k - 1) n) (Some c) s)"
    | (stop) "t = c # s"
    by (auto split: if_splits)
  then show ?case
  proof cases
    case step
    from Cons.IH [OF step(3)] obtain x where x: "s = x @ t" "list_all (inRanges rs) x"
      "\<forall>b. map_option (\<lambda>k. k - 1) n = Some b \<longrightarrow> length x \<le> b" by blast
    have "\<forall>b. n = Some b \<longrightarrow> length (c # x) \<le> b"
    proof (intro allI impI)
      fix b assume b: "n = Some b"
      then have "b \<noteq> 0" using step(1) by simp
      moreover have "length x \<le> b - 1" using x(3) b by simp
      ultimately show "length (c # x) \<le> b" by simp
    qed
    then show ?thesis using x step(2) by (intro exI [of _ "c # x"]) simp
  next
    case stop
    then show ?thesis by (intro exI [of _ "[]"]) simp
  qed
qed

lemma rmatch_bounded:
  "boundedGroup i n r \<Longrightarrow> (cp', p', t) \<in> set (rmatch r (cp, p, s)) \<Longrightarrow>
     (\<forall>x. cp i = Some x \<longrightarrow> shortDigits n x) \<Longrightarrow> (\<forall>x. cp' i = Some x \<longrightarrow> shortDigits n x)"
proof (induction r arbitrary: cp p s cp' p' t)
  case (Cat a b)
  from Cat.prems(2) obtain cq q u where m: "(cq, q, u) \<in> set (rmatch a (cp, p, s))"
    "(cp', p', t) \<in> set (rmatch b (cq, q, u))" by auto
  have "\<forall>x. cq i = Some x \<longrightarrow> shortDigits n x"
    using Cat.IH(1) [OF _ m(1) Cat.prems(3)] Cat.prems(1) by simp
  then show ?case using Cat.IH(2) [OF _ m(2)] Cat.prems(1) by simp
next
  case (Alt a b)
  from Alt.prems(2) consider "(cp', p', t) \<in> set (rmatch a (cp, p, s))"
    | "(cp', p', t) \<in> set (rmatch b (cp, p, s))" by auto
  then show ?case
  proof cases
    case 1
    from Alt.IH(1) [OF _ 1 Alt.prems(3)] Alt.prems(1) show ?thesis by simp
  next
    case 2
    from Alt.IH(2) [OF _ 2 Alt.prems(3)] Alt.prems(1) show ?thesis by simp
  qed
next
  case (Opt a)
  from Opt.prems(2) consider "(cp', p', t) \<in> set (rmatch a (cp, p, s))"
    | "cp' = cp" by auto
  then show ?case
  proof cases
    case 1
    from Opt.IH [OF _ 1 Opt.prems(3)] Opt.prems(1) show ?thesis by simp
  next
    case 2
    then show ?thesis using Opt.prems(3) by simp
  qed
next
  case (Grp j a)
  from Grp.prems(2) obtain cq where m: "(cq, p', t) \<in> set (rmatch a (cp, p, s))"
    and c: "cp' = cq(j \<mapsto> take (length s - length t) s)" by auto
  show ?case
  proof (cases "j = i")
    case False
    then have "\<forall>x. cq i = Some x \<longrightarrow> shortDigits n x"
      using Grp.IH [OF _ m Grp.prems(3)] Grp.prems(1) by simp
    then show ?thesis using c False by simp
  next
    case True
    then obtain m0 b where a: "a = Rep digit m0 (Some b)" and b: "b \<le> n"
      using Grp.prems(1) by (auto split: regex.splits option.splits)
    from m have "(p', t) \<in> set (rep digit m0 (Some b) p s)" unfolding a by auto
    from rep_consumed [OF this] obtain x where x: "s = x @ t" "list_all (inRanges digit) x"
      "length x \<le> b" by blast
    have "take (length s - length t) s = x" using x(1) by simp
    then show ?thesis using c True x b by (simp add: shortDigits_def)
  qed
next
  case (Cls rs)
  then show ?case by (auto split: if_splits list.splits)
next
  case (Rep rs m b)
  from Rep.prems(2) have "cp' = cp" by auto
  then show ?case using Rep.prems(3) by simp
next
  case Eps
  then show ?case by simp
next
  case Eos
  then show ?case by (auto split: if_splits)
next
  case Wb
  from Wb.prems(2) have "cp' = cp" by (auto split: if_splits)
  then show ?case using Wb.prems(3) by simp
next
  case (NotAhead rs)
  from NotAhead.prems(2) have "cp' = cp" by (auto split: if_splits list.splits)
  then show ?case using NotAhead.prems(3) by simp
qed

lemma rxMatch_bounded:
  assumes "rxMatch r s = Some m" "boundedGroup i n r"
  shows "shortDigits n (grp m i)"
proof -
  from assms(1) obtain p t rest where "rmatch r (Map.empty, None, s) = (m, p, t) # rest"
    by (auto simp: rxMatch_def split: list.splits)
  then have "(m, p, t) \<in> set (rmatch r (Map.empty, None, s))" by simp
  from rmatch_bounded [OF assms(2) this] have "\<forall>x. m i = Some x \<longrightarrow> shortDigits n x" by simp
  then show ?thesis by (auto simp: grp_def shortDigits_def split: option.splits)
qed

lemma foldl_digits_bound:
  "list_all (inRanges digit) s \<Longrightarrow> 0 \<le> a \<Longrightarrow>
     foldl (\<lambda>a c. 10 * a + (int c - 48)) a s < (a + 1) * 10 ^ length s"
proof (induction s arbitrary: a)
  case Nil
  then show ?case by simp
next
  case (Cons c s)
  have c: "int c - 48 \<le> 9" "0 \<le> int c - 48" using Cons.prems(1) by (auto simp: digit_def)
  have "foldl (\<lambda>a c. 10 * a + (int c - 48)) (10 * a + (int c - 48)) s
          < (10 * a + (int c - 48) + 1) * 10 ^ length s"
    using Cons.IH [of "10 * a + (int c - 48)"] Cons.prems c by simp
  also have "\<dots> \<le> (10 * a + 10) * 10 ^ length s"
    using c by (intro mult_right_mono) auto
  finally show ?case by (simp add: algebra_simps)
qed

lemma digitsToInt_bound:
  assumes "shortDigits n x"
  shows "0 \<le> digitsToInt x \<and> digitsToInt x < 10 ^ n"
proof -
  have d: "list_all (inRanges digit) x" "length x \<le> n" using assms by (auto simp: shortDigits_def)
  have "0 \<le> digitsToInt x"
    using foldl_digits_nonneg [of x 0] d(1) by (simp add: digitsToInt_def list_all_iff)
  moreover have "digitsToInt x < 10 ^ length x"
    using foldl_digits_bound [OF d(1), of 0] by (simp add: digitsToInt_def)
  moreover have "(10 :: int) ^ length x \<le> 10 ^ n" using d(2) by (intro power_increasing) auto
  ultimately show ?thesis by linarith
qed

lemma dayFromYear_linear:
  "146097 * y - 287811596 \<le> 400 * dayFromYear y \<and> 400 * dayFromYear y \<le> 146097 * y - 287810501"
proof -
  define A where "A = (y - 1969) div 4"
  define B where "B = (y - 1901) div 100"
  define C where "C = (y - 1601) div 400"
  have a: "4 * A \<le> y - 1969" "y - 1972 \<le> 4 * A"
    using div_mult_mod_eq [of "y - 1969" 4] pos_mod_bound [of 4 "y - 1969"]
      pos_mod_sign [of 4 "y - 1969"] unfolding A_def by linarith+
  have b: "100 * B \<le> y - 1901" "y - 2000 \<le> 100 * B"
    using div_mult_mod_eq [of "y - 1901" 100] pos_mod_bound [of 100 "y - 1901"]
      pos_mod_sign [of 100 "y - 1901"] unfolding B_def by linarith+
  have c: "400 * C \<le> y - 1601" "y - 2000 \<le> 400 * C"
    using div_mult_mod_eq [of "y - 1601" 400] pos_mod_bound [of 400 "y - 1601"]
      pos_mod_sign [of 400 "y - 1601"] unfolding C_def by linarith+
  have d: "dayFromYear y = 365 * (y - 1970) + A - B + C"
    unfolding dayFromYear_def A_def B_def C_def by (rule refl)
  have e: "400 * dayFromYear y = 146000 * y - 287620000 + 100 * (4 * A) - 4 * (100 * B) + 400 * C"
    unfolding d by simp
  have a': "100 * (4 * A) \<le> 100 * y - 196900" "100 * y - 197200 \<le> 100 * (4 * A)"
    using a by simp_all
  have b': "4 * (100 * B) \<le> 4 * y - 7604" "4 * y - 8000 \<le> 4 * (100 * B)"
    using b by simp_all
  show ?thesis unfolding e using a' b' c by simp
qed

lemma year_of_day_bound:
  assumes "\<bar>n\<bar> \<le> 3500000"
  shows "\<bar>yearFromDay n\<bar> \<le> 12000"
proof -
  define y where "y = yearFromDay n"
  have yd: "dayFromYear y + dayWithinYear n = n" "0 \<le> dayWithinYear n" "dayWithinYear n \<le> 365"
    using year_day_inverse [of n] unfolding y_def by (auto simp: inLeapYear_def split: if_splits)
  note l = dayFromYear_linear [of y]
  have "y \<le> 12000" using l yd assms by linarith
  moreover have "- 12000 \<le> y" using l yd assms by linarith
  ultimately show ?thesis unfolding y_def by linarith
qed

lemma monthStart_bounds: "0 \<le> mo \<Longrightarrow> mo \<le> 11 \<Longrightarrow> 0 \<le> monthStart mo l \<or> l < 0"
  by (auto simp: monthStart_def)

lemma makeDay_bounds:
  assumes "0 \<le> mo" "mo \<le> 11" "1 \<le> d" "d \<le> 31"
  shows "dayFromYear y \<le> makeDay y mo d \<and> makeDay y mo d \<le> dayFromYear y + 366"
proof -
  have m: "mo div 12 = 0" "mo mod 12 = mo" using assms by simp_all
  have l: "inLeapYear y = 0 \<or> inLeapYear y = 1" by (simp add: inLeapYear_def)
  have "0 \<le> monthStart mo (inLeapYear y) \<and> monthStart mo (inLeapYear y) \<le> 335"
    using l assms(1,2) by (auto simp: monthStart_def)
  then show ?thesis using assms(3,4) by (simp add: makeDay_def Let_def m)
qed

lemma dateUTC_bounded:
  assumes y: "lo \<le> (if 0 \<le> y \<and> y \<le> 99 then 1900 + y else y)"
             "(if 0 \<le> y \<and> y \<le> 99 then 1900 + y else y) \<le> hi"
    and f: "0 \<le> mo" "mo \<le> 11" "1 \<le> d" "d \<le> 31" "0 \<le> h" "h \<le> 23" "0 \<le> mi" "mi \<le> 59"
      "0 \<le> s" "s \<le> 59" "0 \<le> ms" "ms \<le> 999"
    and r: "- 12000 \<le> lo" "hi \<le> 12000"
  shows "\<exists>u. dateUTC y mo d h mi s ms = Num u
           \<and> (146097 * lo - 287811596) * 216000 \<le> u
           \<and> u \<le> (146097 * hi - 287810501) * 216000 + 31708800000"
proof -
  define yr where "yr = (if 0 \<le> y \<and> y \<le> 99 then 1900 + y else y)"
  define dy where "dy = makeDay yr mo d"
  define tm where "tm = makeTime h mi s ms"
  have t: "0 \<le> tm" "tm \<le> 86399999" using f unfolding tm_def makeTime_def by linarith+
  note l = dayFromYear_linear [of yr]
  note m = makeDay_bounds [OF f(1-4), of yr]
  have lo: "146097 * lo - 287811596 \<le> 400 * dy" using l m y(1) unfolding yr_def dy_def by linarith
  have hi: "400 * dy \<le> 146097 * hi - 287810501 + 146400" using l m y(2) unfolding yr_def dy_def by linarith
  have "(146097 * lo - 287811596) * 216000 \<le> (400 * dy) * 216000"
    using lo by (intro mult_right_mono) simp_all
  then have u1: "(146097 * lo - 287811596) * 216000 \<le> dy * 86400000 + tm" using t by simp
  have "(400 * dy) * 216000 \<le> (146097 * hi - 287810501 + 146400) * 216000"
    using hi by (intro mult_right_mono) simp_all
  then have u2: "dy * 86400000 + tm \<le> (146097 * hi - 287810501) * 216000 + 31708800000"
    using t by simp
  have "(146097 * (- 12000) - 287811596) * 216000 \<le> (146097 * lo - 287811596) * (216000 :: int)"
    using r(1) by (intro mult_right_mono) simp_all
  moreover have "(146097 * hi - 287810501) * 216000 \<le> (146097 * 12000 - 287810501) * (216000 :: int)"
    using r(2) by (intro mult_right_mono) simp_all
  ultimately have "- 8640000000000000 \<le> dy * 86400000 + tm"
    "dy * 86400000 + tm \<le> 8640000000000000" using u1 u2 by simp_all
  then have "\<bar>dy * 86400000 + tm\<bar> \<le> 8640000000000000" by simp
  then have "dateUTC y mo d h mi s ms = Num (dy * 86400000 + tm)"
    unfolding dateUTC_def Let_def yr_def [symmetric] dy_def [symmetric] tm_def [symmetric]
    by (simp add: timeClip_def msPerDay_def)
  then show ?thesis using u1 u2 by blast
qed

lemma utcGuess_bounded:
  assumes "0 \<le> y" "y \<le> 9999" "1 \<le> mo" "mo \<le> 12" "1 \<le> d" "d \<le> 31"
    "0 \<le> h" "h \<le> 23" "0 \<le> mi" "mi \<le> 59" "0 \<le> s" "s \<le> 59" "0 \<le> ms" "ms \<le> 999"
  shows "\<exists>u. dateUTC y (mo - 1) d h mi s ms = Num u \<and> \<bar>u\<bar> \<le> 300000000000000"
proof -
  have "\<exists>u. dateUTC y (mo - 1) d h mi s ms = Num u
           \<and> (146097 * 0 - 287811596) * 216000 \<le> u
           \<and> u \<le> (146097 * 9999 - 287810501) * 216000 + 31708800000"
    using assms by (intro dateUTC_bounded) auto
  then show ?thesis by auto
qed

lemma offset_inr:
  "validTimeZone e name \<Longrightarrow> \<exists>ofs. getTimeZoneOffsetMilliseconds e (Num t) name = Inr ofs"
  by (simp add: getTimeZoneOffsetMilliseconds_def toDateParts_def Let_def)

lemma toInstant_total:
  assumes z: "zoneOk e z" and e: "envOk e"
    and u: "dateUTC (cyear c) (cmonth c - 1) (cday c) (orZero (chour c)) (orZero (cminute c))
              (orZero (csecond c)) (orZero (cmillisecond c)) = Num u" "\<bar>u\<bar> \<le> 300000000000000"
  shows "\<exists>r. toInstantFromComponents e c z = Inr r"
proof (cases z)
  case (Fixed off lbl)
  then show ?thesis by (simp add: toInstantFromComponents_def Let_def)
next
  case (Iana name lbl)
  then have v: "validTimeZone e name" using z by (simp add: zoneOk_def)
  have nd: "newDate (Num u) = Num u" using u(2) by (simp add: newDate_def timeClip_def)
  from e v u(2) obtain ofs where o: "getTimeZoneOffsetMilliseconds e (Num u) name = Inr (Num ofs)"
    "\<bar>ofs\<bar> \<le> 1000000000000000" unfolding envOk_def by blast
  have "\<bar>u - ofs\<bar> < 2 ^ 53" using u(2) o(2) by simp
  then have s: "numSub (Num u) (Num ofs) = Num (u - ofs)"
    using toDouble_exact [of "u - ofs"] by (simp add: numSub_def)
  have "\<bar>u - ofs\<bar> \<le> 8640000000000000" using u(2) o(2) by simp
  then have na: "newDate (Num (u - ofs)) = Num (u - ofs)" by (simp add: newDate_def timeClip_def)
  from offset_inr [OF v, of "u - ofs"] obtain o2 where
    o2: "getTimeZoneOffsetMilliseconds e (Num (u - ofs)) name = Inr o2" by blast
  show ?thesis
    unfolding toInstantFromComponents_def Let_def u(1) Iana ZoneSpec.case nd o(1) sum.case s na o2
    by simp
qed

lemma buildDate_total:
  assumes z: "zoneOk e z" and e: "envOk e" and y: "0 \<le> cyear base" "cyear base \<le> 9999"
  shows "\<exists>r. buildDateFromComponents e base z = Inr r"
proof (cases "isValidCalendarDate (cyear base) (cmonth base) (cday base)
    \<and> \<not> (orZero (chour base) < 0 \<or> orZero (chour base) > 23 \<or> orZero (cminute base) < 0
          \<or> orZero (cminute base) > 59 \<or> orZero (csecond base) < 0 \<or> orZero (csecond base) > 59)
    \<and> \<not> (orZero (cmillisecond base) < 0 \<or> orZero (cmillisecond base) > 999)")
  case False
  then show ?thesis by (auto simp: buildDateFromComponents_def Let_def)
next
  case True
  then have md: "1 \<le> cmonth base" "cmonth base \<le> 12" "1 \<le> cday base" "cday base \<le> 31"
    by (auto simp: isValidCalendarDate_def split: if_splits)
  from True have f: "0 \<le> orZero (chour base)" "orZero (chour base) \<le> 23"
    "0 \<le> orZero (cminute base)" "orZero (cminute base) \<le> 59"
    "0 \<le> orZero (csecond base)" "orZero (csecond base) \<le> 59"
    "0 \<le> orZero (cmillisecond base)" "orZero (cmillisecond base) \<le> 999" by auto
  from utcGuess_bounded [OF y md f] obtain u where
    u: "dateUTC (cyear base) (cmonth base - 1) (cday base) (orZero (chour base))
          (orZero (cminute base)) (orZero (csecond base)) (orZero (cmillisecond base)) = Num u"
       "\<bar>u\<bar> \<le> 300000000000000" by blast
  from toInstant_total [OF z e u] obtain r where "toInstantFromComponents e base z = Inr r" by blast
  then show ?thesis using True by (simp add: buildDateFromComponents_def Let_def)
qed

lemma components_total:
  assumes "zoneOk e z" "envOk e" "0 \<le> y" "y \<le> 9999"
  shows "\<exists>r. parseComponentsWithMeridiem e y mo d h mi s ms z mer = Inr r"
proof (cases "applyMeridiem h mer")
  case None
  then show ?thesis by (simp add: parseComponentsWithMeridiem_def)
next
  case (Some H)
  show ?thesis
    unfolding parseComponentsWithMeridiem_def Some option.case
    using assms by (intro buildDate_total) simp_all
qed

lemma tryAttempts_total:
  assumes "zoneOk e z" "envOk e" "\<forall>(y, m, d) \<in> set as. 0 \<le> y \<and> y \<le> 9999"
  shows "\<exists>r. tryAttempts e as h mi s ms z mer = Inr r"
  using assms(3)
proof (induction as)
  case Nil
  then show ?case by simp
next
  case (Cons x as)
  obtain y m d where x: "x = (y, m, d)" by (cases x)
  have y: "0 \<le> y" "y \<le> 9999" using Cons.prems x by auto
  from components_total [OF assms(1,2) y] obtain r where
    r: "parseComponentsWithMeridiem e y m d h mi s ms z mer = Inr r" by blast
  from Cons.IH Cons.prems obtain r' where r': "tryAttempts e as h mi s ms z mer = Inr r'" by auto
  show ?case unfolding x tryAttempts.simps r sum.case using r' by (cases r) simp_all
qed

lemma year_group:
  assumes "rxMatch r s = Some m" "boundedGroup i 4 r"
  shows "0 \<le> digitsToInt (grp m i) \<and> digitsToInt (grp m i) \<le> 9999"
  using digitsToInt_bound [OF rxMatch_bounded [OF assms]] by simp

lemma case_total:
  "(\<And>m. x = Some m \<Longrightarrow> \<exists>r. f m = Inr r) \<Longrightarrow> d = Inr d'
     \<Longrightarrow> \<exists>r. (case x of None \<Rightarrow> d | Some m \<Rightarrow> f m) = Inr r"
  by (cases x) auto

lemma digits_of_test:
  assumes "rxTest (seq [Rep digit 1 None, Eos]) s"
  shows "list_all (inRanges digit) s"
proof -
  have "rmatch (seq [Rep digit 1 None, Eos]) (Map.empty, None, s) \<noteq> []"
    using assms unfolding rxTest_def rxMatch_def
    by (cases "rmatch (seq [Rep digit 1 None, Eos]) (Map.empty, None, s)") simp_all
  then have "rmatch (Cat (Rep digit 1 None) (Cat Eos Eps)) (Map.empty, None, s) \<noteq> []"
    by (simp add: seq_def del: rmatch.simps)
  then have "concat (map (rmatch (Cat Eos Eps)) (rmatch (Rep digit 1 None) (Map.empty, None, s))) \<noteq> []"
    by (subst (asm) rmatch.simps(2))
  then obtain x where "x \<in> set (map (rmatch (Cat Eos Eps)) (rmatch (Rep digit 1 None) (Map.empty, None, s)))"
    "x \<noteq> []" unfolding concat_eq_Nil_conv by blast
  then obtain st where st: "st \<in> set (rmatch (Rep digit 1 None) (Map.empty, None, s))"
    "rmatch (Cat Eos Eps) st \<noteq> []" unfolding set_map by blast
  from st(1) obtain p' t where r: "(p', t) \<in> set (rep digit 1 None None s)"
    and e: "st = (Map.empty, p', t)" by auto
  have "t = []" using st(2) unfolding e by (auto split: if_splits)
  with rep_consumed [OF r] show ?thesis by auto
qed

lemma bounded_patterns:
  "boundedGroup 1 4 plainDatePattern" "boundedGroup 1 4 yearMonthPattern"
  "boundedGroup 1 4 monthTextPattern" "boundedGroup 1 4 dateTimePattern"
  "boundedGroup 1 4 slashPattern" "boundedGroup 3 4 slashPattern"
  "boundedGroup 1 4 chinesePattern" "boundedGroup 3 4 dayMonthNamePattern"
  "boundedGroup 3 4 monthNamePattern" "boundedGroup 6 4 ansiPattern"
  "boundedGroup 1 4 (seq [Grp 1 (Rep digit 4 (Some 4)), Grp 2 (Rep digit 2 (Some 2)),
                            Grp 3 (Rep digit 2 (Some 2)), Grp 4 (Rep digit 2 (Some 2)),
                            Grp 5 (Rep digit 2 (Some 2)), Grp 6 (Rep digit 2 (Some 2)), Eos])"
  "boundedGroup 1 4 (seq [Grp 1 (Rep digit 4 (Some 4)), Grp 2 (Rep digit 2 (Some 2)),
                            Grp 3 (Rep digit 2 (Some 2)), Eos])"
  by (simp_all add: plainDatePattern_def yearMonthPattern_def monthTextPattern_def
      dateTimePattern_def slashPattern_def chinesePattern_def dayMonthNamePattern_def
      monthNamePattern_def ansiPattern_def meridiemPattern_def seq_def ch_def chI_def
      oneOf_def litI_def js_def)

lemma parseNumeric_total:
  assumes z: "zoneOk e z" and e: "envOk e"
  shows "\<exists>r. parseNumeric e input z = Inr r"
proof (cases "rxTest (seq [Rep digit 1 None, Eos]) input")
  case False
  then show ?thesis by (simp add: parseNumeric_def)
next
  case True
  note dg = digits_of_test [OF True]
  consider (a) "length input = 14 \<and> startsWith input (js ''2'')"
    | (b) "\<not> (length input = 14 \<and> startsWith input (js ''2''))"
          "length input = 8 \<and> startsWith input (js ''2'')"
    | (c) "\<not> (length input = 14 \<and> startsWith input (js ''2''))"
          "\<not> (length input = 8 \<and> startsWith input (js ''2''))"
          "length input = 4 \<and> startsWith input (js ''2'')"
    | (d) "\<not> (length input = 14 \<and> startsWith input (js ''2''))"
          "\<not> (length input = 8 \<and> startsWith input (js ''2''))"
          "\<not> (length input = 4 \<and> startsWith input (js ''2''))"
    by blast
  then show ?thesis
  proof cases
    case a
    let ?P = "seq [Grp 1 (Rep digit 4 (Some 4)), Grp 2 (Rep digit 2 (Some 2)),
                            Grp 3 (Rep digit 2 (Some 2)), Grp 4 (Rep digit 2 (Some 2)),
                            Grp 5 (Rep digit 2 (Some 2)), Grp 6 (Rep digit 2 (Some 2)), Eos]"
    show ?thesis
    proof (cases "rxMatch ?P input")
      case None
      then show ?thesis unfolding parseNumeric_def using True a by simp
    next
      case (Some m)
      have "\<exists>r. parseComponentsWithMeridiem e (digitsToInt (grp m 1)) (digitsToInt (grp m 2))
               (digitsToInt (grp m 3)) (digitsToInt (grp m 4)) (digitsToInt (grp m 5))
               (digitsToInt (grp m 6)) 0 z None = Inr r"
        using year_group [OF Some bounded_patterns(11)] by (intro components_total [OF z e]) simp_all
      then show ?thesis unfolding parseNumeric_def using True a Some by simp
    qed
  next
    case b
    let ?P = "seq [Grp 1 (Rep digit 4 (Some 4)), Grp 2 (Rep digit 2 (Some 2)),
                            Grp 3 (Rep digit 2 (Some 2)), Eos]"
    show ?thesis
    proof (cases "rxMatch ?P input")
      case None
      then show ?thesis unfolding parseNumeric_def using True b by simp
    next
      case (Some m)
      have "\<exists>r. buildDateFromComponents e
               \<lparr>cyear = digitsToInt (grp m 1), cmonth = digitsToInt (grp m 2),
                cday = digitsToInt (grp m 3), chour = None, cminute = None, csecond = None,
                cmillisecond = None\<rparr> z = Inr r"
        using year_group [OF Some bounded_patterns(12)] by (intro buildDate_total [OF z e]) simp_all
      then show ?thesis unfolding parseNumeric_def using True b Some by simp
    qed
  next
    case c
    have "shortDigits 4 input" using c(3) dg by (simp add: shortDigits_def)
    from digitsToInt_bound [OF this] have "0 \<le> digitsToInt input \<and> digitsToInt input \<le> 9999" by simp
    then have "\<exists>r. buildDateFromComponents e
          \<lparr>cyear = digitsToInt input, cmonth = 1, cday = 1, chour = None, cminute = None,
           csecond = None, cmillisecond = None\<rparr> z = Inr r"
      by (intro buildDate_total [OF z e]) simp_all
    then show ?thesis
      unfolding parseNumeric_def using True c by simp
  next
    case d
    show ?thesis
      unfolding parseNumeric_def
      by (simp add: True d Let_def split: jsnum.splits)
  qed
qed

lemma parseDashDate_total:
  assumes z: "zoneOk e z" and e: "envOk e"
  shows "\<exists>r. parseDashDate e input z = Inr r"
proof -
  note y = year_group [OF _ bounded_patterns(1)] year_group [OF _ bounded_patterns(2)]
    year_group [OF _ bounded_patterns(3)] year_group [OF _ bounded_patterns(4)]
  show ?thesis
  proof (cases "rxMatch plainDatePattern input")
    case (Some m)
    show ?thesis unfolding parseDashDate_def Some option.case
      using y(1) [OF Some] by (intro buildDate_total [OF z e]) simp_all
  next
    case n1: None
    show ?thesis
    proof (cases "rxMatch yearMonthPattern input")
      case (Some m)
      show ?thesis unfolding parseDashDate_def n1 Some option.case
        using y(2) [OF Some] by (intro buildDate_total [OF z e]) simp_all
    next
      case n2: None
      show ?thesis
      proof (cases "rxMatch monthTextPattern input")
        case (Some m)
        show ?thesis
        proof (cases "parseMonthToken (grp m 2)")
          case None
          then show ?thesis unfolding parseDashDate_def n1 n2 Some option.case by simp
        next
          case mo: (Some month)
          show ?thesis unfolding parseDashDate_def n1 n2 Some mo option.case
            using y(3) [OF Some] by (intro buildDate_total [OF z e]) simp_all
        qed
      next
        case n3: None
        show ?thesis
        proof (cases "rxMatch dateTimePattern input")
          case None
          then show ?thesis unfolding parseDashDate_def n1 n2 n3 option.case by simp
        next
          case (Some m)
          show ?thesis unfolding parseDashDate_def n1 n2 n3 Some option.case
            using y(4) [OF Some] by (intro components_total [OF z e]) simp_all
        qed
      qed
    qed
  qed
qed

lemma slashAttempts_years:
  assumes "shortDigits 4 a" "shortDigits 4 c"
  shows "\<forall>(y, m, d) \<in> set (slashAttempts a b c). 0 \<le> y \<and> y \<le> 9999"
proof -
  note ba = digitsToInt_bound [OF assms(1)]
  note bc = digitsToInt_bound [OF assms(2)]
  have two: "length x \<le> 2 \<Longrightarrow> shortDigits 4 x \<Longrightarrow>
      0 \<le> expandTwoDigitYear (digitsToInt x) \<and> expandTwoDigitYear (digitsToInt x) \<le> 9999" for x
  proof -
    assume "length x \<le> 2" "shortDigits 4 x"
    then have "shortDigits 2 x" by (simp add: shortDigits_def)
    from digitsToInt_bound [OF this] show ?thesis by (simp add: expandTwoDigitYear_def)
  qed
  show ?thesis using ba bc two [of a] two [of c] assms
    by (auto simp: slashAttempts_def)
qed

lemma parseSlashDate_total:
  assumes z: "zoneOk e z" and e: "envOk e"
  shows "\<exists>r. parseSlashDate e input z = Inr r"
proof (cases "rxMatch slashPattern input")
  case None
  then show ?thesis by (simp add: parseSlashDate_def)
next
  case (Some m)
  note a = rxMatch_bounded [OF Some bounded_patterns(5)]
  note c = rxMatch_bounded [OF Some bounded_patterns(6)]
  show ?thesis unfolding parseSlashDate_def Some option.case Let_def
    by (rule tryAttempts_total [OF z e slashAttempts_years [OF a c]])
qed

lemma parseChineseDate_total:
  assumes z: "zoneOk e z" and e: "envOk e"
  shows "\<exists>r. parseChineseDate e input z = Inr r"
proof (cases "rxMatch chinesePattern (trim input)")
  case None
  then show ?thesis by (simp add: parseChineseDate_def)
next
  case (Some m)
  show ?thesis unfolding parseChineseDate_def Some option.case
    using year_group [OF Some bounded_patterns(7)] by (intro components_total [OF z e]) simp_all
qed

lemma parseDayMonthName_total:
  assumes z: "zoneOk e z" and e: "envOk e"
  shows "\<exists>r. parseDayMonthName e input z = Inr r"
proof (cases "rxMatch dayMonthNamePattern (trim input)")
  case None
  then show ?thesis by (simp add: parseDayMonthName_def)
next
  case (Some m)
  show ?thesis
  proof (cases "parseMonthToken (grp m 2)")
    case None
    then show ?thesis unfolding parseDayMonthName_def Some option.case by simp
  next
    case mo: (Some month)
    show ?thesis unfolding parseDayMonthName_def Some mo option.case
      using year_group [OF Some bounded_patterns(8)] by (intro components_total [OF z e]) simp_all
  qed
qed

lemma parseMonthNameDate_total:
  assumes z: "zoneOk e z" and e: "envOk e"
  shows "\<exists>r. parseMonthNameDate e input z = Inr r"
proof (cases "rxMatch monthNamePattern (trim input)")
  case None
  then show ?thesis by (simp add: parseMonthNameDate_def)
next
  case (Some m)
  show ?thesis
  proof (cases "parseMonthToken (grp m 1)")
    case None
    then show ?thesis unfolding parseMonthNameDate_def Some option.case by simp
  next
    case mo: (Some month)
    show ?thesis unfolding parseMonthNameDate_def Some mo option.case Let_def
      using year_group [OF Some bounded_patterns(9)] by (intro components_total [OF z e]) simp_all
  qed
qed

lemma parseAnsiStyle_total:
  assumes z: "zoneOk e z" and e: "envOk e"
  shows "\<exists>r. parseAnsiStyle e input z = Inr r"
proof (cases "rxMatch ansiPattern (trim input)")
  case None
  then show ?thesis by (simp add: parseAnsiStyle_def)
next
  case (Some m)
  show ?thesis
  proof (cases "parseMonthToken (grp m 1)")
    case None
    then show ?thesis unfolding parseAnsiStyle_def Some option.case by simp
  next
    case mo: (Some month)
    show ?thesis unfolding parseAnsiStyle_def Some mo option.case
      using year_group [OF Some bounded_patterns(10)] by (intro components_total [OF z e]) simp_all
  qed
qed

lemma pipeline_total:
  assumes z: "zoneOk e z" and e: "envOk e"
  shows "\<forall>entry \<in> set (parserPipeline st). \<exists>r. snd entry e input z = Inr r"
  using parseNumeric_total [OF z e, of input] parseDashDate_total [OF z e, of input]
    parseSlashDate_total [OF z e, of input] parseChineseDate_total [OF z e, of input]
    parseDayMonthName_total [OF z e, of input] parseMonthNameDate_total [OF z e, of input]
    parseAnsiStyle_total [OF z e, of input]
  by (simp add: parserPipeline_def Let_def nowEntry_def agoEntry_def nativeEntry_def)

lemma runParsers_total:
  "\<forall>entry \<in> set ps. \<exists>r. snd entry e input z = Inr r \<Longrightarrow> \<exists>r. runParsers e ps input z = Inr r"
proof (induction ps)
  case Nil
  then show ?case by simp
next
  case (Cons x ps)
  obtain lbl p where x: "x = (lbl, p)" by (cases x)
  from Cons.prems obtain r where r: "p e input z = Inr r" unfolding x by auto
  from Cons.IH Cons.prems obtain r' where r': "runParsers e ps input z = Inr r'" by auto
  show ?case unfolding x runParsers.simps r sum.case using r' by (cases r) simp_all
qed

lemma runParsers_exhaust:
  "list_all (declines e input z) ps \<Longrightarrow>
     runParsers e ps input z =
       Inr (ParseFailure input z (zoneDisplayName z) (js ''Could not find date format for '' @ input))"
proof (induction ps)
  case Nil
  then show ?case by simp
next
  case (Cons x ps)
  obtain lbl p where x: "x = (lbl, p)" by (cases x)
  from Cons.prems have "p e input z = Inr None \<or> p e input z = Inr (Some NaN)"
    unfolding x by (simp add: declines_def)
  then show ?case using Cons unfolding x by (auto simp: getTime_def)
qed

lemma runParsers_first:
  "list_all (declines e input z) pre \<Longrightarrow> p e input z = Inr (Some d) \<Longrightarrow> d \<noteq> NaN \<Longrightarrow>
     runParsers e (pre @ (lbl, p) # post) input z =
       Inr (ParseSuccess input z (zoneDisplayName z) d lbl)"
proof (induction pre)
  case Nil
  then show ?case by (simp add: getTime_def)
next
  case (Cons x pre)
  obtain l q where x: "x = (l, q)" by (cases x)
  from Cons.prems have "q e input z = Inr None \<or> q e input z = Inr (Some NaN)"
    unfolding x by (simp add: declines_def)
  then show ?case using Cons unfolding x by (auto simp: getTime_def)
qed

lemma parseFixedOffset_ok: "parseFixedOffset v = Some zn \<Longrightarrow> zoneOk e zn"
  by (auto simp: parseFixedOffset_def Let_def zoneOk_def split: option.splits if_splits)

lemma parseZone_ok:
  assumes "envOk e" "parseZone e r = Some zn"
  shows "zoneOk e zn"
proof -
  have l: "validTimeZone e (localTimeZone e)" using assms(1) by (simp add: envOk_def)
  show ?thesis
    using assms(2) l parseFixedOffset_ok [of _ _ e]
    by (auto simp: parseZone_def Let_def zoneOk_def isValidIanaTimeZone_def
        split: option.splits if_splits)
qed

lemma split_ok:
  assumes "envOk e" "zoneOk e dz"
  shows "zoneOk e (snd (splitInputAndZone e raw dz))"
  using assms parseZone_ok [OF assms(1)]
  by (auto simp: splitInputAndZone_def Let_def split: option.splits)

lemma utcEnv_offset:
  assumes "\<bar>t\<bar> \<le> 300000000000000"
  shows "\<exists>ofs. getTimeZoneOffsetMilliseconds utcEnv (Num t) (js ''UTC'') = Inr (Num ofs)
               \<and> \<bar>ofs\<bar> \<le> 1000000000000000"
proof -
  define n where "n = t div msPerDay"
  have tn: "t = n * 86400000 + t mod 86400000" unfolding n_def msPerDay_def by simp
  have tm: "0 \<le> t mod 86400000" "t mod 86400000 < 86400000" by simp_all
  have "\<bar>n\<bar> \<le> 3500000" using assms tn tm by linarith
  from year_of_day_bound [OF this] have y: "\<bar>yearFromDay n\<bar> \<le> 12000" .
  have md: "0 \<le> monthFromDay n \<and> monthFromDay n \<le> 11 \<and> 1 \<le> dateFromDay n \<and> dateFromDay n \<le> 31"
    using year_day_inverse [of n] month_date_inverse [of n] by simp
  have "\<exists>u. dateUTC (yearFromDay n) (monthFromDay n) (dateFromDay n) ((t div 3600000) mod 24)
            ((t div 60000) mod 60) ((t div 1000) mod 60) 0 = Num u
          \<and> (146097 * (- 12000) - 287811596) * 216000 \<le> u
          \<and> u \<le> (146097 * 12000 - 287810501) * 216000 + 31708800000"
    using y md by (intro dateUTC_bounded) (auto split: if_splits)
  then obtain u where u: "dateUTC (yearFromDay n) (monthFromDay n) (dateFromDay n)
            ((t div 3600000) mod 24) ((t div 60000) mod 60) ((t div 1000) mod 60) 0 = Num u"
    "\<bar>u\<bar> \<le> 500000000000000" by auto
  have "\<bar>u - t\<bar> < 2 ^ 53" using u(2) assms by simp
  then have d: "toDouble (u - t) = Num (u - t)" by (rule toDouble_exact)
  have "getTimeZoneOffsetMilliseconds utcEnv (Num t) (js ''UTC'') = Inr (Num (u - t))"
    unfolding getTimeZoneOffsetMilliseconds_def toDateParts_def
    by (simp add: utcEnv_simps utcEnv_parts js_def Let_def dateUTCn_def plusInt_def
        n_def [symmetric] u(1) numSub_def getTime_def d)
  moreover have "\<bar>u - t\<bar> \<le> 1000000000000000" using u(2) assms by simp
  ultimately show ?thesis by blast
qed

lemma envOk_utcEnv: "envOk utcEnv"
  unfolding envOk_def using utcEnv_offset
  by (auto simp: utcEnv_simps localTimeZone_def js_def)

text \<open>
  C5: in an environment with a sane zone database (\<open>envOk\<close>) and for a default source
  zone of the data model (\<open>zoneOk\<close>), \<open>parseDateInput\<close> returns a result for every raw
  input, a success or a failure, and raises nothing; the zone of the result is a zone
  of the data model again. When the text left by the zone suffix is empty, the result
  is the failure with the usage hint and the label of the zone, which is the default
  zone then. When every entry of the pipeline declines, with null or with an invalid
  date, the result is the failure whose message is \<open>Could not find date format for\<close>
  and the text. When an entry returns a valid date and the entries before it decline,
  the result is the success with that date and the label of that entry.
\<close>

theorem parseDateInput_total:
  assumes e: "envOk e" and z: "zoneOk e dz"
  shows "(\<exists>r. parseDateInput e raw dz = Inr r)
     \<and> zoneOk e (snd (splitInputAndZone e raw dz))
     \<and> (fst (splitInputAndZone e raw dz) = [] \<longrightarrow>
          parseDateInput e raw dz =
            Inr (ParseFailure [] (snd (splitInputAndZone e raw dz))
                   (zoneDisplayName (snd (splitInputAndZone e raw dz))) emptyInputError))
     \<and> (fst (splitInputAndZone e raw dz) \<noteq> []
          \<and> list_all (declines e (fst (splitInputAndZone e raw dz)) (snd (splitInputAndZone e raw dz)))
               (parserPipeline (detectState (fst (splitInputAndZone e raw dz)))) \<longrightarrow>
          parseDateInput e raw dz =
            Inr (ParseFailure (fst (splitInputAndZone e raw dz)) (snd (splitInputAndZone e raw dz))
                   (zoneDisplayName (snd (splitInputAndZone e raw dz)))
                   (js ''Could not find date format for '' @ fst (splitInputAndZone e raw dz))))
     \<and> (\<forall>pre lbl p post d.
          fst (splitInputAndZone e raw dz) \<noteq> []
          \<and> parserPipeline (detectState (fst (splitInputAndZone e raw dz))) = pre @ (lbl, p) # post
          \<and> list_all (declines e (fst (splitInputAndZone e raw dz)) (snd (splitInputAndZone e raw dz))) pre
          \<and> p e (fst (splitInputAndZone e raw dz)) (snd (splitInputAndZone e raw dz)) = Inr (Some d)
          \<and> d \<noteq> NaN \<longrightarrow>
          parseDateInput e raw dz =
            Inr (ParseSuccess (fst (splitInputAndZone e raw dz)) (snd (splitInputAndZone e raw dz))
                   (zoneDisplayName (snd (splitInputAndZone e raw dz))) d lbl))"
proof -
  obtain input zone where s: "splitInputAndZone e raw dz = (input, zone)"
    by (cases "splitInputAndZone e raw dz")
  have zo: "zoneOk e zone" using split_ok [OF e z, of raw] s by simp
  have t: "\<exists>r. parseDateInput e raw dz = Inr r"
    unfolding parseDateInput_def s prod.case
    using runParsers_total [OF pipeline_total [OF zo e]] by simp
  show ?thesis
    unfolding s fst_conv snd_conv
    using t zo runParsers_exhaust [of e input zone] runParsers_first [of e input zone]
    by (auto simp: parseDateInput_def s)
qed

text \<open>
  Outside the data model, with a named zone that the zone database does not know, the
  dash parser reaches the zone database and the exception of the host escapes.
\<close>

lemma unknown_zone_raises:
  "\<not> zoneOk utcEnv (Iana (js ''Mars/Base'') None)
   \<and> parseDateInput utcEnv (js ''2019-01-30 21:24:44'') (Iana (js ''Mars/Base'') None) = Inl RangeError"
  by (simp add: ev utcEnv_simps zoneOk_def toDateParts_def getTimeZoneOffsetMilliseconds_def
      runParsers.simps cong: let_weak_cong)

text \<open>
  In the sample environment with the named zone UTC as the default: a dash date, a
  blank input, and a word that no parser takes, with a zone suffix.
\<close>

theorem parseDateInput_total_witness:
  "envOk utcEnv
   \<and> zoneOk utcEnv (Iana (js ''UTC'') None)
   \<and> parseDateInput utcEnv (js ''2019-01-30 21:24:44'') (Iana (js ''UTC'') None) =
       Inr (ParseSuccess (js ''2019-01-30 21:24:44'') (Iana (js ''UTC'') None) (js ''UTC'')
              (Num 1548883484000) (js ''dash''))
   \<and> parseDateInput utcEnv (js ''   '') (Iana (js ''UTC'') None) =
       Inr (ParseFailure [] (Iana (js ''UTC'') None) (js ''UTC'') emptyInputError)
   \<and> list_all (declines utcEnv (js ''hello'') (Fixed (- 420) (js ''UTC-07:00'')))
        (parserPipeline (detectState (js ''hello'')))
   \<and> parseDateInput utcEnv (js ''hello,gmt-7'') (Iana (js ''UTC'') None) =
       Inr (ParseFailure (js ''hello'') (Fixed (- 420) (js ''UTC-07:00'')) (js ''UTC-07:00'')
              (js ''Could not find date format for hello''))"
  using envOk_utcEnv
    parseDateInput_total [OF envOk_utcEnv, of "Iana (js ''UTC'') None" "js ''2019-01-30 21:24:44''"]
    parseDateInput_total [OF envOk_utcEnv, of "Iana (js ''UTC'') None" "js ''   ''"]
    parseDateInput_total [OF envOk_utcEnv, of "Iana (js ''UTC'') None" "js ''hello,gmt-7''"]
  by (simp add: ev utcEnv_simps utcEnv_parts zoneOk_def declines_def toDateParts_def
      getTimeZoneOffsetMilliseconds_def dateUTCn_def runParsers.simps
      parseMonthNameDate_def monthNamePattern_def parseAnsiStyle_def ansiPattern_def
      parseWithNativeDate_def hasExplicitTimeZone_def zoneWord_def
      isWordAt_def wordChar_def rxSearchFrom.simps numNeq_def cong: let_weak_cong)

end
